theory Spec2Isabelle
  imports Complex_Main "HOL-Library.Log_Nat"
begin

section \<open>The rolling series held in the session state\<close>

text \<open>
  The dashboard of \<^verbatim>\<open>plotagem_processos/main.py\<close> keeps three one-column pandas
  DataFrames in \<^verbatim>\<open>st.session_state\<close>, indexed by the \<^verbatim>\<open>pd.Timestamp\<close> of the
  tick that produced the row. A DataFrame is modelled as the list of its rows in index
  order, each row the pair of its index label and its value. A timestamp is the integer
  number of nanoseconds that \<^verbatim>\<open>pd.Timestamp\<close> stores; the values of a column are
  numbers, modelled as reals.
\<close>

type_synonym timestamp = int

type_synonym dataframe = "(timestamp \<times> real) list"

text \<open>
  \<^verbatim>\<open>df.loc[label] = value\<close>: when the label is in the index, every row carrying it
  has its value overwritten in place; otherwise the frame is enlarged by one row at the
  end.
\<close>

definition loc_set :: "dataframe \<Rightarrow> timestamp \<Rightarrow> real \<Rightarrow> dataframe" where
  "loc_set df label v =
     (if label \<in> fst ` set df
      then map (\<lambda>(k, x). if k = label then (k, v) else (k, x)) df
      else df @ [(label, v)])"

text \<open>
  \<^verbatim>\<open>df.tail(n)\<close>: the last \<open>n\<close> rows; no row for \<open>n = 0\<close>; for a negative \<open>n\<close>, every
  row but the first \<open>|n|\<close>.
\<close>

definition tail_df :: "int \<Rightarrow> dataframe \<Rightarrow> dataframe" where
  "tail_df n df =
     (if n = 0 then []
      else if 0 < n then drop (length df - nat n) df
      else drop (nat (- n)) df)"

section \<open>The metric source\<close>

datatype error = MetricError | OverflowError

text \<open>
  What the operating system answers during one iteration of the loop: the wall clock
  read by \<^verbatim>\<open>pd.Timestamp.now()\<close> and the three psutil queries, each of which may
  raise.
\<close>

record environment =
  timestamp_now :: timestamp
  psutil_pids :: "error + nat list"
  psutil_cpu_percent :: "error + real"
  psutil_virtual_memory_used :: "error + int"

definition get_process_count :: "environment \<Rightarrow> error + int" where
  "get_process_count env =
     (case psutil_pids env of Inl e \<Rightarrow> Inl e | Inr pids \<Rightarrow> Inr (int (length pids)))"

text \<open>\<^verbatim>\<open>psutil.cpu_percent(interval=1)\<close> blocks for the interval, one second.\<close>

definition cpu_sampling_window :: int where
  "cpu_sampling_window = 1"

definition get_cpu_usage :: "environment \<Rightarrow> error + real" where
  "get_cpu_usage env = psutil_cpu_percent env"

definition get_memory_usage :: "environment \<Rightarrow> error + int" where
  "get_memory_usage env =
     (case psutil_virtual_memory_used env of Inl e \<Rightarrow> Inl e | Inr used \<Rightarrow> Inr (used div 1000000))"

section \<open>The sampler loop\<close>

text \<open>The two sidebar sliders.\<close>

record config =
  update_interval :: int
  chart_history :: int

text \<open>
  The session state, and with it the seconds that the iterations which ran to their
  end have spent in their two blocking calls (the CPU sampling window and
  \<^verbatim>\<open>time.sleep\<close>). An iteration that raises returns no state: the seconds it
  blocked before the exception are not counted.
\<close>

record loop_state =
  process_data :: dataframe
  cpu_data :: dataframe
  ram_data :: dataframe
  blocked_seconds :: int

definition initial_state :: loop_state where
  "initial_state = \<lparr>process_data = [], cpu_data = [], ram_data = [], blocked_seconds = 0\<rparr>"

text \<open>
  One iteration of \<^verbatim>\<open>while True\<close>, lines 186 to 203 and 234: the three reads in the
  order of the source, none of them guarded, so the first exception leaves the
  iteration before any frame is touched; then the three \<^verbatim>\<open>loc\<close> assignments, the three
  \<^verbatim>\<open>tail\<close> calls, and the sleep. Rendering reads the frames and is left out.
\<close>

definition tick :: "config \<Rightarrow> environment \<Rightarrow> loop_state \<Rightarrow> error + loop_state" where
  "tick cfg env s =
     (let current_time = timestamp_now env in
      (case get_process_count env of
         Inl e \<Rightarrow> Inl e
       | Inr process_count \<Rightarrow>
      (case get_cpu_usage env of
         Inl e \<Rightarrow> Inl e
       | Inr cpu_usage \<Rightarrow>
      (case get_memory_usage env of
         Inl e \<Rightarrow> Inl e
       | Inr ram_usage \<Rightarrow>
           Inr \<lparr>process_data =
                  tail_df (chart_history cfg)
                    (loc_set (process_data s) current_time (of_int process_count)),
                cpu_data =
                  tail_df (chart_history cfg) (loc_set (cpu_data s) current_time cpu_usage),
                ram_data =
                  tail_df (chart_history cfg)
                    (loc_set (ram_data s) current_time (of_int ram_usage)),
                blocked_seconds =
                  blocked_seconds s + cpu_sampling_window + update_interval cfg\<rparr>))))"

text \<open>
  The loop over the answers of the environment, one per iteration. It has no exit of
  its own: it runs while the environment answers and stops at the first exception,
  which is returned with the session state as the failed iteration found it.
\<close>

fun main_loop :: "config \<Rightarrow> environment list \<Rightarrow> loop_state \<Rightarrow> error option \<times> loop_state" where
  "main_loop cfg [] s = (None, s)"
| "main_loop cfg (env # envs) s =
     (case tick cfg env s of Inl e \<Rightarrow> (Some e, s) | Inr s' \<Rightarrow> main_loop cfg envs s')"

text \<open>An environment in which every query succeeds.\<close>

definition reading :: "timestamp \<Rightarrow> nat \<Rightarrow> real \<Rightarrow> int \<Rightarrow> environment" where
  "reading t procs cpu used =
     \<lparr>timestamp_now = t, psutil_pids = Inr (replicate procs 0),
      psutil_cpu_percent = Inr cpu, psutil_virtual_memory_used = Inr used\<rparr>"

section \<open>Invariants of a series\<close>

text \<open>
  A series is in order below \<open>t\<close> when it holds at most \<open>n\<close> rows, its index is
  non-decreasing and no label exceeds \<open>t\<close>; a state is, when its three series are.
\<close>

definition series_ok :: "int \<Rightarrow> timestamp \<Rightarrow> dataframe \<Rightarrow> bool" where
  "series_ok n t df \<longleftrightarrow>
     length df \<le> nat n \<and> sorted (map fst df) \<and> (\<forall>k \<in> fst ` set df. k \<le> t)"

definition state_ok :: "int \<Rightarrow> timestamp \<Rightarrow> loop_state \<Rightarrow> bool" where
  "state_ok n t s \<longleftrightarrow>
     series_ok n t (process_data s) \<and> series_ok n t (cpu_data s) \<and> series_ok n t (ram_data s)"

section \<open>Python floats\<close>

text \<open>
  A Python float is an IEEE 754 double. A finite double is modelled by the number it
  denotes (a rational or a real, as the context has it), the negative zero, the two
  infinities and NaN by constructors of their own; \<open>Finite 0\<close> is the positive zero.
\<close>

datatype 'a double = Finite 'a | NegZero | PosInf | NegInf | NaN

text \<open>Rounding to the nearest integer, a tie going to the even neighbour.\<close>

definition round_half_even :: "'a::floor_ceiling \<Rightarrow> int" where
  "round_half_even q =
     (let f = \<lfloor>q\<rfloor>; r = q - of_int f
      in if r < 1 / 2 then f else if 1 / 2 < r then f + 1 else if even f then f else f + 1)"

text \<open>
  The double nearest to a number, a tie going to the double with the even mantissa.
  With \<open>2 ^ e \<le> |q| < 2 ^ (e + 1)\<close> the doubles around \<open>q\<close> are the multiples of
  \<open>2 ^ (e - 52)\<close>: for \<open>1 \<le> |q|\<close> the exponent is read from the integer part of \<open>|q|\<close>,
  below 1 from the integer that bounds \<open>1 / |q|\<close>; below \<open>2 ^ - 1022\<close> the doubles are
  the multiples of \<open>2 ^ - 1074\<close>.
\<close>

definition double_ulp :: "'a::floor_ceiling \<Rightarrow> 'a" where
  "double_ulp q =
     (if 1 \<le> \<bar>q\<bar> then 2 ^ nat (bitlen \<lfloor>\<bar>q\<bar>\<rfloor> - 1) / 2 ^ 52
      else 1 / 2 ^ (min 1022 (nat (bitlen (\<lceil>1 / \<bar>q\<bar>\<rceil> - 1))) + 52))"

definition nearest_double :: "'a::floor_ceiling \<Rightarrow> 'a" where
  "nearest_double q = of_int (round_half_even (q / double_ulp q)) * double_ulp q"

text \<open>
  The least magnitude that has no double: halfway between the greatest double,
  \<open>2 ^ 1024 - 2 ^ 971\<close>, and \<open>2 ^ 1024\<close>.
\<close>

definition double_overflow :: "'a::floor_ceiling" where
  "double_overflow = 2 ^ 1024 - 2 ^ 970"

text \<open>
  The double that an arithmetic operation returns when its exact result is \<open>q\<close> and
  is not zero: the nearest double, an infinity from \<open>double_overflow\<close> on, and a zero
  of the sign of \<open>q\<close> when \<open>q\<close> rounds to zero. (An exact zero carries a sign that
  depends on the operation.)
\<close>

definition double_of :: "'a::floor_ceiling \<Rightarrow> 'a double" where
  "double_of q =
     (if double_overflow \<le> \<bar>q\<bar> then (if 0 < q then PosInf else NegInf)
      else if nearest_double q = 0 \<and> q < 0 then NegZero
      else Finite (nearest_double q))"

text \<open>
  The arithmetic of doubles that \<^verbatim>\<open>create_plot\<close> uses: negation, addition, subtraction
  (the addition of the negation) and multiplication, each returning the double nearest
  to the exact result, with the signs of zero and the infinities of IEEE 754.
\<close>

definition double_neg :: "'a::floor_ceiling double \<Rightarrow> 'a double" where
  "double_neg a =
     (case a of
        Finite x \<Rightarrow> (if x = 0 then NegZero else Finite (- x))
      | NegZero \<Rightarrow> Finite 0
      | PosInf \<Rightarrow> NegInf
      | NegInf \<Rightarrow> PosInf
      | NaN \<Rightarrow> NaN)"

fun double_add :: "'a::floor_ceiling double \<Rightarrow> 'a double \<Rightarrow> 'a double" where
  "double_add NaN b = NaN"
| "double_add a NaN = NaN"
| "double_add PosInf NegInf = NaN"
| "double_add NegInf PosInf = NaN"
| "double_add PosInf b = PosInf"
| "double_add a PosInf = PosInf"
| "double_add NegInf b = NegInf"
| "double_add a NegInf = NegInf"
| "double_add NegZero b = b"
| "double_add a NegZero = a"
| "double_add (Finite x) (Finite y) = (if x + y = 0 then Finite 0 else double_of (x + y))"

definition double_sub :: "'a::floor_ceiling double \<Rightarrow> 'a double \<Rightarrow> 'a double" where
  "double_sub a b = double_add a (double_neg b)"

definition double_is_nan :: "'a double \<Rightarrow> bool" where
  "double_is_nan a = (case a of NaN \<Rightarrow> True | _ \<Rightarrow> False)"

definition double_is_inf :: "'a double \<Rightarrow> bool" where
  "double_is_inf a = (case a of PosInf \<Rightarrow> True | NegInf \<Rightarrow> True | _ \<Rightarrow> False)"

definition double_is_zero :: "'a::floor_ceiling double \<Rightarrow> bool" where
  "double_is_zero a = (case a of Finite x \<Rightarrow> x = 0 | NegZero \<Rightarrow> True | _ \<Rightarrow> False)"

definition double_sign :: "'a::floor_ceiling double \<Rightarrow> bool" where
  "double_sign a = (case a of Finite x \<Rightarrow> x < 0 | NegZero \<Rightarrow> True | NegInf \<Rightarrow> True | _ \<Rightarrow> False)"

definition double_value :: "'a::floor_ceiling double \<Rightarrow> 'a" where
  "double_value a = (case a of Finite x \<Rightarrow> x | _ \<Rightarrow> 0)"

definition double_mul :: "'a::floor_ceiling double \<Rightarrow> 'a double \<Rightarrow> 'a double" where
  "double_mul a b =
     (if double_is_nan a \<or> double_is_nan b then NaN
      else if double_is_inf a \<or> double_is_inf b
        then (if double_is_zero a \<or> double_is_zero b then NaN
              else if double_sign a \<noteq> double_sign b then NegInf else PosInf)
      else if double_is_zero a \<or> double_is_zero b
        then (if double_sign a \<noteq> double_sign b then NegZero else Finite 0)
      else double_of (double_value a * double_value b))"

text \<open>The comparison \<^verbatim>\<open>x > 0\<close> and Python's \<^verbatim>\<open>max(0, x)\<close>, which answers its first
  argument unless the second is greater.\<close>

definition double_gt_zero :: "'a::floor_ceiling double \<Rightarrow> bool" where
  "double_gt_zero a = (case a of Finite x \<Rightarrow> 0 < x | PosInf \<Rightarrow> True | _ \<Rightarrow> False)"

definition py_max_zero :: "'a::floor_ceiling double \<Rightarrow> 'a double" where
  "py_max_zero a = (if double_gt_zero a then a else Finite 0)"

text \<open>The float literal \<^verbatim>\<open>0.1\<close>.\<close>

definition double_tenth :: "'a::floor_ceiling" where
  "double_tenth = nearest_double (1 / 10)"

section \<open>The renderer\<close>

text \<open>
  \<^verbatim>\<open>create_plot\<close>, lines 84 to 93: the range that the figure gives its y axis, from
  the only column of the frame. The values of a column are doubles (the integers of
  the process and memory columns, far below \<open>2 ^ 53\<close>, are doubles too), and the
  subtraction, the multiplication by \<^verbatim>\<open>0.1\<close> and the additions are those of doubles;
  the integers \<^verbatim>\<open>1\<close> of the padding and \<^verbatim>\<open>0\<close> of \<^verbatim>\<open>max\<close> are written as the doubles
  equal to them. An empty column has no extrema (pandas answers NaN) and no range of
  numbers: \<open>None\<close>. The loop never draws one, since it plots after the assignment of
  the tick and keeps at least ten rows.
\<close>

definition create_plot_yaxis_range :: "dataframe \<Rightarrow> (real double \<times> real double) option" where
  "create_plot_yaxis_range df =
     (case map snd df of
        [] \<Rightarrow> None
      | y # ys \<Rightarrow>
          (let y_min = Finite (fold min ys y);
               y_max = Finite (fold max ys y);
               y_range = double_sub y_max y_min;
               padding =
                 (if double_gt_zero y_range then double_mul y_range (Finite double_tenth)
                  else Finite 1)
           in Some (py_max_zero (double_sub y_min padding), double_add y_max padding)))"

section \<open>Formatting a size\<close>

text \<open>
  \<^verbatim>\<open>format_bytes\<close>, lines 62 to 68. Its argument is a Python number: an \<open>int\<close>, which is
  what both callers pass (a byte count floor-divided by 1000000), or a float.
\<close>

datatype pynum = PyInt int | PyFloat "rat double"

text \<open>
  The float of an \<open>int\<close>, and the quotient of two \<open>int\<close>s, of exact value \<open>q\<close>: the
  nearest double, and \<^verbatim>\<open>OverflowError\<close> when there is none.
\<close>

definition py_float :: "rat \<Rightarrow> error + rat" where
  "py_float q = (if double_overflow \<le> \<bar>q\<bar> then Inl OverflowError else Inr (nearest_double q))"

text \<open>
  \<^verbatim>\<open>f"{x:.1f}"\<close> on a float: the sign, the decimal digits of the integer part, a point
  and one digit, the value being rounded to the nearest tenth, a tie going to the even
  one.
\<close>

definition digit_char :: "nat \<Rightarrow> char" where
  "digit_char d = ''0123456789'' ! d"

fun digits :: "nat \<Rightarrow> string" where
  "digits n = (if n < 10 then [digit_char n] else digits (n div 10) @ [digit_char (n mod 10)])"

declare digits.simps [simp del]

definition format_1f :: "rat \<Rightarrow> string" where
  "format_1f x =
     (let tenths = nat (round_half_even (10 * \<bar>x\<bar>))
      in (if x < 0 then ''-'' else '''') @ digits (tenths div 10) @ ''.'' @ [digit_char (tenths mod 10)])"

text \<open>The same format on any float.\<close>

definition format_float :: "rat double \<Rightarrow> string" where
  "format_float a =
     (case a of
        Finite x \<Rightarrow> format_1f x
      | NegZero \<Rightarrow> ''-0.0''
      | PosInf \<Rightarrow> ''inf''
      | NegInf \<Rightarrow> ''-inf''
      | NaN \<Rightarrow> ''nan'')"

text \<open>
  The comparisons \<^verbatim>\<open>x < 1024\<close> and \<^verbatim>\<open>x >= c\<close> of a float with a number, false on NaN,
  and the division \<^verbatim>\<open>x / 1024\<close> of a float.
\<close>

definition double_lt_1024 :: "rat double \<Rightarrow> bool" where
  "double_lt_1024 a =
     (case a of
        Finite x \<Rightarrow> x < 1024
      | NegZero \<Rightarrow> True
      | PosInf \<Rightarrow> False
      | NegInf \<Rightarrow> True
      | NaN \<Rightarrow> False)"

definition double_at_least :: "rat \<Rightarrow> rat double \<Rightarrow> bool" where
  "double_at_least c a =
     (case a of
        Finite x \<Rightarrow> c \<le> x
      | NegZero \<Rightarrow> c \<le> 0
      | PosInf \<Rightarrow> True
      | NegInf \<Rightarrow> False
      | NaN \<Rightarrow> False)"

definition double_div_1024 :: "rat double \<Rightarrow> rat double" where
  "double_div_1024 a =
     (case a of
        Finite x \<Rightarrow> (if x = 0 then Finite 0 else double_of (x / 1024))
      | NegZero \<Rightarrow> NegZero
      | PosInf \<Rightarrow> PosInf
      | NegInf \<Rightarrow> NegInf
      | NaN \<Rightarrow> NaN)"

text \<open>
  The three operations of the loop body on a number of either kind: the comparison
  \<^verbatim>\<open>bytes < 1024\<close>, which is exact; the division \<^verbatim>\<open>bytes /= 1024\<close>, whose result is a
  float; and the formatting with the unit, which converts an \<open>int\<close> to a float first.
\<close>

definition lt_1024 :: "pynum \<Rightarrow> bool" where
  "lt_1024 b = (case b of PyInt i \<Rightarrow> i < 1024 | PyFloat a \<Rightarrow> double_lt_1024 a)"

definition truediv_1024 :: "pynum \<Rightarrow> error + pynum" where
  "truediv_1024 b =
     (case b of
        PyInt i \<Rightarrow>
          (case py_float (of_int i / 1024) of
             Inl e \<Rightarrow> Inl e
           | Inr x \<Rightarrow> Inr (PyFloat (Finite x)))
      | PyFloat a \<Rightarrow> Inr (PyFloat (double_div_1024 a)))"

definition format_unit :: "pynum \<Rightarrow> string \<Rightarrow> error + string" where
  "format_unit b unit =
     (case b of
        PyInt i \<Rightarrow>
          (case py_float (of_int i) of Inl e \<Rightarrow> Inl e | Inr x \<Rightarrow> Inr (format_1f x @ '' '' @ unit))
      | PyFloat a \<Rightarrow> Inr (format_float a @ '' '' @ unit))"

text \<open>
  The \<^verbatim>\<open>for\<close> loop over the units that are left, and the \<^verbatim>\<open>return\<close> after it.
\<close>

fun format_bytes_loop :: "string list \<Rightarrow> pynum \<Rightarrow> error + string" where
  "format_bytes_loop [] b = format_unit b ''TB''"
| "format_bytes_loop (unit # units) b =
     (if lt_1024 b then format_unit b unit
      else (case truediv_1024 b of Inl e \<Rightarrow> Inl e | Inr b' \<Rightarrow> format_bytes_loop units b'))"

definition format_bytes :: "pynum \<Rightarrow> error + string" where
  "format_bytes b = format_bytes_loop [''MB'', ''GB'', ''TB''] b"

section \<open>Properties of the two DataFrame operations\<close>

lemma loc_set_fresh: "label \<notin> fst ` set df \<Longrightarrow> loc_set df label v = df @ [(label, v)]"
  by (simp add: loc_set_def)

lemma map_fst_overwrite:
  "map fst (map (\<lambda>(k, x). if k = label then (k, v) else (k, x)) df) = map fst df"
  by (induction df) auto

lemma length_loc_set_present: "label \<in> fst ` set df \<Longrightarrow> length (loc_set df label v) = length df"
  by (simp add: loc_set_def)

lemma index_loc_set:
  "map fst (loc_set df label v) = (if label \<in> fst ` set df then map fst df else map fst df @ [label])"
  unfolding loc_set_def using map_fst_overwrite [of label v df] by (simp del: map_map)

lemma index_loc_set_present: "label \<in> fst ` set df \<Longrightarrow> map fst (loc_set df label v) = map fst df"
  using index_loc_set [of df label v] by simp

lemma tail_df_drop: "0 \<le> n \<Longrightarrow> tail_df n df = drop (length df - nat n) df"
  by (simp add: tail_df_def)

lemma length_tail_df: "0 \<le> n \<Longrightarrow> length (tail_df n df) = min (nat n) (length df)"
  by (auto simp add: tail_df_def)

lemma set_tail_df: "set (tail_df n df) \<subseteq> set df"
  by (auto simp add: tail_df_def dest: in_set_dropD)

lemma sorted_tail_df: "sorted (map fst df) \<Longrightarrow> sorted (map fst (tail_df n df))"
  by (simp add: tail_df_def drop_map [symmetric] sorted_wrt_drop)

lemma sorted_loc_set:
  "sorted (map fst df) \<Longrightarrow> \<forall>k \<in> fst ` set df. k \<le> label \<Longrightarrow> sorted (map fst (loc_set df label v))"
  by (auto simp add: index_loc_set sorted_append)

lemma bound_loc_set:
  "\<forall>k \<in> fst ` set df. k \<le> label \<Longrightarrow> \<forall>k \<in> fst ` set (loc_set df label v). k \<le> label"
proof -
  assume a: "\<forall>k \<in> fst ` set df. k \<le> label"
  have "set (map fst (loc_set df label v)) \<subseteq> insert label (set (map fst df))"
    unfolding index_loc_set by auto
  then have "fst ` set (loc_set df label v) \<subseteq> insert label (fst ` set df)"
    by (simp only: set_map)
  with a show ?thesis by blast
qed

lemma series_ok_mono: "series_ok n t df \<Longrightarrow> t \<le> t' \<Longrightarrow> series_ok n t' df"
  unfolding series_ok_def by force

lemma series_ok_step:
  assumes "0 \<le> n" and "series_ok n t df"
  shows "series_ok n t (tail_df n (loc_set df t v))"
proof -
  from assms(2) have srt: "sorted (map fst df)" and bnd: "\<forall>k \<in> fst ` set df. k \<le> t"
    by (simp_all add: series_ok_def)
  have "length (tail_df n (loc_set df t v)) \<le> nat n"
    using assms(1) by (simp add: length_tail_df)
  moreover have "sorted (map fst (tail_df n (loc_set df t v)))"
    using srt bnd by (intro sorted_tail_df sorted_loc_set)
  moreover have "\<forall>k \<in> fst ` set (tail_df n (loc_set df t v)). k \<le> t"
    using bound_loc_set [OF bnd, of v] set_tail_df [of n "loc_set df t v"] by blast
  ultimately show ?thesis by (simp add: series_ok_def)
qed

lemma tick_Inr_iff:
  "tick cfg env s = Inr s' \<longleftrightarrow>
     (\<exists>p c m. get_process_count env = Inr p \<and> get_cpu_usage env = Inr c \<and>
        get_memory_usage env = Inr m \<and>
        s' = \<lparr>process_data =
                tail_df (chart_history cfg) (loc_set (process_data s) (timestamp_now env) (of_int p)),
              cpu_data = tail_df (chart_history cfg) (loc_set (cpu_data s) (timestamp_now env) c),
              ram_data =
                tail_df (chart_history cfg) (loc_set (ram_data s) (timestamp_now env) (of_int m)),
              blocked_seconds = blocked_seconds s + cpu_sampling_window + update_interval cfg\<rparr>)"
  by (auto simp add: tick_def Let_def split: sum.splits)

lemma tick_state_ok:
  assumes "0 \<le> chart_history cfg" and "state_ok (chart_history cfg) t0 s"
    and "t0 \<le> timestamp_now env" and "tick cfg env s = Inr s'"
  shows "state_ok (chart_history cfg) (timestamp_now env) s'"
proof -
  from assms(2,3) have "state_ok (chart_history cfg) (timestamp_now env) s"
    by (auto simp add: state_ok_def intro: series_ok_mono)
  with assms(1,4) show ?thesis
    by (auto simp add: tick_Inr_iff state_ok_def intro: series_ok_step)
qed

lemma main_loop_state_ok:
  "0 \<le> chart_history cfg \<Longrightarrow> state_ok (chart_history cfg) t0 s \<Longrightarrow>
   sorted (t0 # map timestamp_now envs) \<Longrightarrow>
   \<exists>t. state_ok (chart_history cfg) t (snd (main_loop cfg envs s))"
proof (induction envs arbitrary: s t0)
  case Nil
  then show ?case by auto
next
  case (Cons env envs)
  show ?case
  proof (cases "tick cfg env s")
    case (Inl e)
    with Cons.prems(2) show ?thesis by auto
  next
    case (Inr s')
    from Cons.prems(3) have le: "t0 \<le> timestamp_now env"
      and srt: "sorted (timestamp_now env # map timestamp_now envs)" by simp_all
    from tick_state_ok [OF Cons.prems(1,2) le Inr]
    have "state_ok (chart_history cfg) (timestamp_now env) s'" .
    from Cons.IH [OF Cons.prems(1) this srt] Inr show ?thesis by simp
  qed
qed

lemma initial_state_ok: "state_ok n t initial_state"
  by (simp add: state_ok_def series_ok_def initial_state_def)

subsection \<open>A run of successful ticks with increasing timestamps\<close>

lemma main_loop_snoc:
  "main_loop cfg (envs @ [env]) s =
     (case main_loop cfg envs s of
        (Some e, s') \<Rightarrow> (Some e, s')
      | (None, s') \<Rightarrow> main_loop cfg [env] s')"
  by (induction envs arbitrary: s) (auto split: sum.splits)

lemma tick_all_read:
  assumes "\<not> isl (psutil_pids env)" and "\<not> isl (psutil_cpu_percent env)"
    and "\<not> isl (psutil_virtual_memory_used env)"
  shows "tick cfg env s =
     Inr \<lparr>process_data =
            tail_df (chart_history cfg)
              (loc_set (process_data s) (timestamp_now env) (of_int (projr (get_process_count env)))),
          cpu_data =
            tail_df (chart_history cfg)
              (loc_set (cpu_data s) (timestamp_now env) (projr (get_cpu_usage env))),
          ram_data =
            tail_df (chart_history cfg)
              (loc_set (ram_data s) (timestamp_now env) (of_int (projr (get_memory_usage env)))),
          blocked_seconds = blocked_seconds s + cpu_sampling_window + update_interval cfg\<rparr>"
proof -
  from assms obtain p c m where "psutil_pids env = Inr p" "psutil_cpu_percent env = Inr c"
    "psutil_virtual_memory_used env = Inr m"
    by (cases "psutil_pids env"; cases "psutil_cpu_percent env";
        cases "psutil_virtual_memory_used env") auto
  then show ?thesis
    by (simp add: tick_def Let_def get_process_count_def get_cpu_usage_def
        get_memory_usage_def)
qed

lemma last_rows_snoc:
  "drop (length (drop (length ys - n) ys @ [z]) - n) (drop (length ys - n) ys @ [z]) =
     drop (length (ys @ [z]) - n) (ys @ [z])"
proof (cases "length ys \<le> n")
  case True
  then show ?thesis by simp
next
  case False
  then have "length ys - n + (Suc n - n) = Suc (length ys) - n" by simp
  with False show ?thesis by (cases n) (simp_all add: Suc_diff_le)
qed

lemma append_trim_last_rows:
  fixes g :: "environment \<Rightarrow> real"
  assumes "0 \<le> n" and "\<forall>e \<in> set envs. timestamp_now e < timestamp_now env"
  shows "tail_df n (loc_set (drop (length envs - nat n) (map (\<lambda>e. (timestamp_now e, g e)) envs))
           (timestamp_now env) (g env)) =
         drop (length (envs @ [env]) - nat n) (map (\<lambda>e. (timestamp_now e, g e)) (envs @ [env]))"
proof -
  let ?rows = "map (\<lambda>e. (timestamp_now e, g e)) envs"
  have "fst ` set (drop (length envs - nat n) ?rows) \<subseteq> fst ` set ?rows"
    using set_drop_subset [of "length envs - nat n" ?rows] by blast
  also have "\<dots> = timestamp_now ` set envs" by force
  finally have sub: "fst ` set (drop (length envs - nat n) ?rows) \<subseteq> timestamp_now ` set envs" .
  have "timestamp_now env \<notin> timestamp_now ` set envs"
    using assms(2) by auto
  with sub have "timestamp_now env \<notin> fst ` set (drop (length envs - nat n) ?rows)"
    by blast
  then show ?thesis
    using last_rows_snoc [of ?rows "nat n" "(timestamp_now env, g env)"]
    by (simp add: loc_set_fresh tail_df_drop [OF assms(1)])
qed

lemma main_loop_last_rows:
  assumes "0 \<le> chart_history cfg" and "sorted_wrt (<) (map timestamp_now envs)"
    and "\<forall>env \<in> set envs. \<not> isl (psutil_pids env) \<and> \<not> isl (psutil_cpu_percent env) \<and>
           \<not> isl (psutil_virtual_memory_used env)"
  shows "main_loop cfg envs initial_state =
     (None,
      \<lparr>process_data =
         drop (length envs - nat (chart_history cfg))
           (map (\<lambda>e. (timestamp_now e, of_int (projr (get_process_count e)))) envs),
       cpu_data =
         drop (length envs - nat (chart_history cfg))
           (map (\<lambda>e. (timestamp_now e, projr (get_cpu_usage e))) envs),
       ram_data =
         drop (length envs - nat (chart_history cfg))
           (map (\<lambda>e. (timestamp_now e, of_int (projr (get_memory_usage e)))) envs),
       blocked_seconds = int (length envs) * (cpu_sampling_window + update_interval cfg)\<rparr>)"
  using assms(2,3)
proof (induction envs rule: rev_induct)
  case Nil
  then show ?case by (simp add: initial_state_def)
next
  case (snoc env envs)
  from snoc.prems(1) have srt: "sorted_wrt (<) (map timestamp_now envs)"
    and new: "\<forall>e \<in> set envs. timestamp_now e < timestamp_now env"
    by (auto simp add: sorted_wrt_append)
  from snoc.prems(2) have oks: "\<forall>env \<in> set envs. \<not> isl (psutil_pids env) \<and>
      \<not> isl (psutil_cpu_percent env) \<and> \<not> isl (psutil_virtual_memory_used env)"
    and ok: "\<not> isl (psutil_pids env)" "\<not> isl (psutil_cpu_percent env)"
      "\<not> isl (psutil_virtual_memory_used env)"
    by simp_all
  note step = append_trim_last_rows [OF assms(1) new]
  note steps = step [of "\<lambda>e. of_int (projr (get_process_count e))"]
    step [of "\<lambda>e. projr (get_cpu_usage e)"]
    step [of "\<lambda>e. of_int (projr (get_memory_usage e))"]
  show ?case
    unfolding main_loop_snoc snoc.IH [OF srt oks]
    by (simp only: prod.case option.case main_loop.simps tick_all_read [OF ok] sum.case
        loop_state.simps steps)
      (simp add: algebra_simps)
qed

section \<open>Claims about the rolling series\<close>

text \<open>
  C2. Append-and-trim is first in, first out. When the timestamp of the tick is not yet
  in the index, the assignment adds the sample at the end and the trim to capacity \<open>n\<close>
  keeps the last \<open>n\<close> rows of the enlarged series in their order, so only the oldest
  rows go. Over a whole run of successful ticks with increasing timestamps, each series
  is the last \<open>n\<close> samples read, in the order they were read. With capacity 3, three
  ticks with process counts 100, 101, 102 leave \<open>[100, 101, 102]\<close> and a fourth tick
  with 103 leaves \<open>[101, 102, 103]\<close>.
\<close>

theorem append_trim_fifo:
  "(0 \<le> n \<and> t \<notin> fst ` set df \<longrightarrow>
      tail_df n (loc_set df t v) = drop (length (df @ [(t, v)]) - nat n) (df @ [(t, v)]) \<and>
      length (tail_df n (loc_set df t v)) = min (nat n) (length df + 1)) \<and>
   (0 \<le> chart_history cfg \<and> sorted_wrt (<) (map timestamp_now envs) \<and>
    (\<forall>env \<in> set envs. \<not> isl (psutil_pids env) \<and> \<not> isl (psutil_cpu_percent env) \<and>
       \<not> isl (psutil_virtual_memory_used env)) \<longrightarrow>
      process_data (snd (main_loop cfg envs initial_state)) =
        drop (length envs - nat (chart_history cfg))
          (map (\<lambda>e. (timestamp_now e, of_int (projr (get_process_count e)))) envs) \<and>
      cpu_data (snd (main_loop cfg envs initial_state)) =
        drop (length envs - nat (chart_history cfg))
          (map (\<lambda>e. (timestamp_now e, projr (get_cpu_usage e))) envs) \<and>
      ram_data (snd (main_loop cfg envs initial_state)) =
        drop (length envs - nat (chart_history cfg))
          (map (\<lambda>e. (timestamp_now e, of_int (projr (get_memory_usage e)))) envs)) \<and>
   (t1 < t2 \<and> t2 < t3 \<and> t3 < t4 \<longrightarrow>
      map snd (process_data (snd (main_loop \<lparr>update_interval = 1, chart_history = 3\<rparr>
        [reading t1 100 c1 m1, reading t2 101 c2 m2, reading t3 102 c3 m3] initial_state)))
        = [100, 101, 102] \<and>
      map snd (process_data (snd (main_loop \<lparr>update_interval = 1, chart_history = 3\<rparr>
        [reading t1 100 c1 m1, reading t2 101 c2 m2, reading t3 102 c3 m3, reading t4 103 c4 m4]
        initial_state)))
        = [101, 102, 103])"
proof -
  have step: "0 \<le> n \<and> t \<notin> fst ` set df \<longrightarrow>
      tail_df n (loc_set df t v) = drop (length (df @ [(t, v)]) - nat n) (df @ [(t, v)]) \<and>
      length (tail_df n (loc_set df t v)) = min (nat n) (length df + 1)"
    by (auto simp add: loc_set_fresh tail_df_drop length_tail_df)
  have run: "0 \<le> chart_history cfg \<and> sorted_wrt (<) (map timestamp_now envs) \<and>
    (\<forall>env \<in> set envs. \<not> isl (psutil_pids env) \<and> \<not> isl (psutil_cpu_percent env) \<and>
       \<not> isl (psutil_virtual_memory_used env)) \<longrightarrow>
      process_data (snd (main_loop cfg envs initial_state)) =
        drop (length envs - nat (chart_history cfg))
          (map (\<lambda>e. (timestamp_now e, of_int (projr (get_process_count e)))) envs) \<and>
      cpu_data (snd (main_loop cfg envs initial_state)) =
        drop (length envs - nat (chart_history cfg))
          (map (\<lambda>e. (timestamp_now e, projr (get_cpu_usage e))) envs) \<and>
      ram_data (snd (main_loop cfg envs initial_state)) =
        drop (length envs - nat (chart_history cfg))
          (map (\<lambda>e. (timestamp_now e, of_int (projr (get_memory_usage e)))) envs)"
    using main_loop_last_rows [of cfg envs] by simp
  have scenario: "t1 < t2 \<and> t2 < t3 \<and> t3 < t4 \<longrightarrow>
      map snd (process_data (snd (main_loop \<lparr>update_interval = 1, chart_history = 3\<rparr>
        [reading t1 100 c1 m1, reading t2 101 c2 m2, reading t3 102 c3 m3] initial_state)))
        = [100, 101, 102] \<and>
      map snd (process_data (snd (main_loop \<lparr>update_interval = 1, chart_history = 3\<rparr>
        [reading t1 100 c1 m1, reading t2 101 c2 m2, reading t3 102 c3 m3, reading t4 103 c4 m4]
        initial_state)))
        = [101, 102, 103]"
    by (auto simp add: tail_df_def tick_def reading_def initial_state_def
        get_process_count_def get_cpu_usage_def get_memory_usage_def loc_set_def)
  from step run scenario show ?thesis by (intro conjI)
qed

theorem append_trim_fifo_witness:
  "tail_df 3 (loc_set [(1, 100), (2, 101), (3, 102)] 4 103) = [(2, 101), (3, 102), (4, 103)] \<and>
   process_data (snd (main_loop \<lparr>update_interval = 1, chart_history = 3\<rparr>
     [reading 1 100 0 0, reading 2 101 0 0, reading 3 102 0 0, reading 4 103 0 0]
     initial_state)) = [(2, 101), (3, 102), (4, 103)]"
  using append_trim_fifo [where n = 3 and t = 4 and df = "[(1, 100), (2, 101), (3, 102)]"
      and v = 103 and cfg = "\<lparr>update_interval = 1, chart_history = 3\<rparr>"
      and envs = "[reading 1 100 0 0, reading 2 101 0 0, reading 3 102 0 0, reading 4 103 0 0]"
      and ?t1.0 = 1 and ?t2.0 = 2 and ?t3.0 = 3 and ?t4.0 = 4
      and ?c1.0 = 0 and ?c2.0 = 0 and ?c3.0 = 0 and ?c4.0 = 0
      and ?m1.0 = 0 and ?m2.0 = 0 and ?m3.0 = 0 and ?m4.0 = 0]
  by (simp add: reading_def get_process_count_def)

text \<open>
  C3. Started on the empty series and fed ticks whose timestamps never go back, the
  loop keeps, after every number \<open>k\<close> of ticks, each of the three series within the
  configured capacity and with a non-decreasing index.
\<close>

theorem series_bounded_and_ordered:
  assumes "0 \<le> chart_history cfg" and "sorted (map timestamp_now envs)"
  shows "length (process_data (snd (main_loop cfg (take k envs) initial_state))) \<le> nat (chart_history cfg) \<and>
         length (cpu_data (snd (main_loop cfg (take k envs) initial_state))) \<le> nat (chart_history cfg) \<and>
         length (ram_data (snd (main_loop cfg (take k envs) initial_state))) \<le> nat (chart_history cfg) \<and>
         sorted (map fst (process_data (snd (main_loop cfg (take k envs) initial_state)))) \<and>
         sorted (map fst (cpu_data (snd (main_loop cfg (take k envs) initial_state)))) \<and>
         sorted (map fst (ram_data (snd (main_loop cfg (take k envs) initial_state))))"
proof -
  define es where "es = take k envs"
  define t0 where "t0 = (case es of [] \<Rightarrow> 0 | e # _ \<Rightarrow> timestamp_now e)"
  have "sorted (map timestamp_now es)"
    using assms(2) unfolding es_def take_map [symmetric] by (rule sorted_wrt_take)
  then have "sorted (t0 # map timestamp_now es)"
    by (cases es) (auto simp add: t0_def)
  from main_loop_state_ok [OF assms(1) initial_state_ok this]
  obtain t where "state_ok (chart_history cfg) t (snd (main_loop cfg es initial_state))" ..
  then show ?thesis
    unfolding es_def state_ok_def series_ok_def by simp
qed

theorem series_bounded_and_ordered_witness:
  "length (process_data (snd (main_loop \<lparr>update_interval = 1, chart_history = 2\<rparr>
      (take 3 [reading 10 100 0 0, reading 10 101 0 0, reading 12 102 0 0]) initial_state))) \<le> 2"
  using series_bounded_and_ordered [of "\<lparr>update_interval = 1, chart_history = 2\<rparr>"
      "[reading 10 100 0 0, reading 10 101 0 0, reading 12 102 0 0]" 3]
  by (simp add: reading_def)



text \<open>
  C10, as the code has it. A tick whose timestamp is already in the index of a series
  overwrites the value stored under it: the index and the length stay as they were and
  the other values are untouched. The trim that follows never lengthens the series, and
  it removes nothing from a series that was within the capacity; a series that was
  longer, the capacity having been lowered, is cut all the same.
\<close>

theorem duplicate_timestamp_overwrites:
  assumes "t \<in> fst ` set df"
  shows "length (loc_set df t v) = length df \<and>
         map fst (loc_set df t v) = map fst df \<and>
         (\<forall>i < length df. snd (loc_set df t v ! i) = (if fst (df ! i) = t then v else snd (df ! i))) \<and>
         length (tail_df n (loc_set df t v)) \<le> length df \<and>
         (length df \<le> nat n \<longrightarrow> tail_df n (loc_set df t v) = loc_set df t v)"
proof -
  have ne: "df \<noteq> []" using assms by auto
  have len: "length (loc_set df t v) = length df"
    using assms by (simp add: loc_set_def)
  have "length df \<le> nat n \<Longrightarrow> 0 < n"
    using ne by (cases "0 < n") auto
  then have "length df \<le> nat n \<Longrightarrow> tail_df n (loc_set df t v) = loc_set df t v"
    by (simp add: tail_df_def len)
  moreover have "\<forall>i < length df. snd (loc_set df t v ! i) = (if fst (df ! i) = t then v else snd (df ! i))"
    using assms by (auto simp add: loc_set_def split: prod.splits)
  moreover have "length (tail_df n (loc_set df t v)) \<le> length df"
    unfolding len [symmetric] by (simp add: tail_df_def)
  ultimately show ?thesis
    using assms len by (simp add: index_loc_set_present)
qed

theorem duplicate_timestamp_overwrites_witness:
  "tail_df 3 (loc_set [(1, 5), (2, 6), (3, 7)] 2 9) = [(1, 5), (2, 9), (3, 7)]"
  using duplicate_timestamp_overwrites [of 2 "[(1, 5), (2, 6), (3, 7)]" 9 3]
  by (simp add: loc_set_def)

text \<open>
  C10 fails as stated: eleven ticks under a capacity of 11, then the slider moved to 10
  and a tick that carries the timestamp of the fifth row. The value of that row is
  overwritten, and the oldest row is evicted on that tick.
\<close>

theorem duplicate_timestamp_counterexample:
  "length (process_data (snd (main_loop \<lparr>update_interval = 10, chart_history = 11\<rparr>
      [reading 1 100 0 0, reading 2 100 0 0, reading 3 100 0 0, reading 4 100 0 0,
       reading 5 100 0 0, reading 6 100 0 0, reading 7 100 0 0, reading 8 100 0 0,
       reading 9 100 0 0, reading 10 100 0 0, reading 11 100 0 0] initial_state))) = 11 \<and>
   (5, 100) \<in> set (process_data (snd (main_loop \<lparr>update_interval = 10, chart_history = 11\<rparr>
      [reading 1 100 0 0, reading 2 100 0 0, reading 3 100 0 0, reading 4 100 0 0,
       reading 5 100 0 0, reading 6 100 0 0, reading 7 100 0 0, reading 8 100 0 0,
       reading 9 100 0 0, reading 10 100 0 0, reading 11 100 0 0] initial_state))) \<and>
   process_data (snd (main_loop \<lparr>update_interval = 10, chart_history = 10\<rparr>
      [reading 5 200 0 0]
      (snd (main_loop \<lparr>update_interval = 10, chart_history = 11\<rparr>
        [reading 1 100 0 0, reading 2 100 0 0, reading 3 100 0 0, reading 4 100 0 0,
       reading 5 100 0 0, reading 6 100 0 0, reading 7 100 0 0, reading 8 100 0 0,
       reading 9 100 0 0, reading 10 100 0 0, reading 11 100 0 0] initial_state)))) =
     [(2, 100), (3, 100), (4, 100), (5, 200), (6, 100), (7, 100), (8, 100), (9, 100),
      (10, 100), (11, 100)]"
  by (simp add: tick_def get_process_count_def get_cpu_usage_def get_memory_usage_def
      reading_def initial_state_def loc_set_def tail_df_def)

section \<open>Claims about the loop\<close>

text \<open>
  C1, as the code has it. The three reads are not guarded. When any of them raises, the
  iteration ends with that exception before a series is touched and the loop stops
  there, the session state being what the iteration found. Only when all three reads
  succeed are the three series assigned and trimmed, and the loop goes on.
\<close>

theorem metric_failure_aborts_loop:
  "(isl (get_process_count env) \<or> isl (get_cpu_usage env) \<or> isl (get_memory_usage env) \<longrightarrow>
      (\<exists>e. tick cfg env s = Inl e \<and> main_loop cfg (env # envs) s = (Some e, s))) \<and>
   (\<not> isl (get_process_count env) \<and> \<not> isl (get_cpu_usage env) \<and> \<not> isl (get_memory_usage env) \<longrightarrow>
      (\<exists>s'. tick cfg env s = Inr s' \<and>
         process_data s' =
           tail_df (chart_history cfg)
             (loc_set (process_data s) (timestamp_now env) (of_int (projr (get_process_count env)))) \<and>
         cpu_data s' =
           tail_df (chart_history cfg)
             (loc_set (cpu_data s) (timestamp_now env) (projr (get_cpu_usage env))) \<and>
         ram_data s' =
           tail_df (chart_history cfg)
             (loc_set (ram_data s) (timestamp_now env) (of_int (projr (get_memory_usage env)))) \<and>
         main_loop cfg (env # envs) s = main_loop cfg envs s'))"
  by (auto simp add: tick_def Let_def isl_def split: sum.splits)

theorem metric_failure_aborts_loop_witness:
  "main_loop \<lparr>update_interval = 10, chart_history = 30\<rparr>
     [\<lparr>timestamp_now = 1, psutil_pids = Inl MetricError, psutil_cpu_percent = Inr 12.5,
        psutil_virtual_memory_used = Inr 8000000000\<rparr>, reading 2 100 12.5 8000000000]
     initial_state = (Some MetricError, initial_state) \<and>
   process_data (snd (main_loop \<lparr>update_interval = 10, chart_history = 30\<rparr>
     [reading 2 100 12.5 8000000000] initial_state)) = [(2, 100)]"
  using metric_failure_aborts_loop [of
      "\<lparr>timestamp_now = 1, psutil_pids = Inl MetricError, psutil_cpu_percent = Inr 12.5,
        psutil_virtual_memory_used = Inr 8000000000\<rparr>"
      "\<lparr>update_interval = 10, chart_history = 30\<rparr>" initial_state
      "[reading 2 100 12.5 8000000000]"]
    metric_failure_aborts_loop [of "reading 2 100 12.5 8000000000"
      "\<lparr>update_interval = 10, chart_history = 30\<rparr>" initial_state "[]"]
  by (simp add: get_process_count_def get_cpu_usage_def get_memory_usage_def reading_def
      tick_def initial_state_def loc_set_def tail_df_def)

text \<open>
  C1 fails as stated: with the process count unavailable on the first tick and the two
  other reads fine, the loop ends with the exception, the CPU and memory series have
  received nothing, and the second tick is never run.
\<close>

theorem metric_failure_counterexample:
  "fst (main_loop \<lparr>update_interval = 10, chart_history = 30\<rparr>
     [\<lparr>timestamp_now = 1, psutil_pids = Inl MetricError, psutil_cpu_percent = Inr 12.5,
        psutil_virtual_memory_used = Inr 8000000000\<rparr>, reading 2 100 12.5 8000000000]
     initial_state) = Some MetricError \<and>
   cpu_data (snd (main_loop \<lparr>update_interval = 10, chart_history = 30\<rparr>
     [\<lparr>timestamp_now = 1, psutil_pids = Inl MetricError, psutil_cpu_percent = Inr 12.5,
        psutil_virtual_memory_used = Inr 8000000000\<rparr>, reading 2 100 12.5 8000000000]
     initial_state)) = [] \<and>
   ram_data (snd (main_loop \<lparr>update_interval = 10, chart_history = 30\<rparr>
     [\<lparr>timestamp_now = 1, psutil_pids = Inl MetricError, psutil_cpu_percent = Inr 12.5,
        psutil_virtual_memory_used = Inr 8000000000\<rparr>, reading 2 100 12.5 8000000000]
     initial_state)) = []"
  by (simp add: tick_def get_process_count_def initial_state_def)

text \<open>
  C8, as the code has it. The CPU sampling window and the sleep follow one another in
  an iteration, so an iteration blocks for their sum, which is more than the greater of
  the two as soon as the interval is at least one second, as the slider ensures.
\<close>

theorem tick_period_is_sum:
  "tick cfg env s = Inr s' \<longrightarrow>
     blocked_seconds s' - blocked_seconds s = update_interval cfg + cpu_sampling_window \<and>
     (1 \<le> update_interval cfg \<longrightarrow>
        max (update_interval cfg) cpu_sampling_window < blocked_seconds s' - blocked_seconds s)"
  by (auto simp add: tick_Inr_iff cpu_sampling_window_def)

theorem tick_period_is_sum_witness:
  "blocked_seconds (projr (tick \<lparr>update_interval = 10, chart_history = 30\<rparr>
      (reading 2 100 12.5 8000000000) initial_state)) - blocked_seconds initial_state = 11"
  using tick_period_is_sum [of "\<lparr>update_interval = 10, chart_history = 30\<rparr>"
      "reading 2 100 12.5 8000000000" initial_state
      "projr (tick \<lparr>update_interval = 10, chart_history = 30\<rparr>
        (reading 2 100 12.5 8000000000) initial_state)"]
  by (simp add: tick_def get_process_count_def get_cpu_usage_def get_memory_usage_def
      reading_def cpu_sampling_window_def)

text \<open>
  C8 fails as stated: with an interval of 10 seconds an iteration blocks for 11 seconds,
  not for the maximum of 10 and 1.
\<close>

theorem tick_period_counterexample:
  "blocked_seconds (snd (main_loop \<lparr>update_interval = 10, chart_history = 30\<rparr>
      [reading 2 100 12.5 8000000000] initial_state)) - blocked_seconds initial_state
     \<noteq> max (update_interval \<lparr>update_interval = 10, chart_history = 30\<rparr>) cpu_sampling_window"
  by (simp add: tick_def get_process_count_def get_cpu_usage_def get_memory_usage_def
      reading_def cpu_sampling_window_def initial_state_def)

section \<open>Rounding to a double and to a tenth\<close>

lemma round_half_even_of_int: "round_half_even (of_int z) = z"
  by (simp add: round_half_even_def)

lemma round_half_even_div:
  assumes "0 < d"
  shows "round_half_even (of_int n / of_int d :: 'a::floor_ceiling) =
     (let q = n div d; r = n mod d
      in if 2 * r < d then q else if d < 2 * r then q + 1 else if even q then q else q + 1)"
proof -
  have fl: "\<lfloor>(of_int n / of_int d :: 'a)\<rfloor> = n div d"
    by (simp add: floor_divide_of_int_eq)
  have "(of_int n :: 'a) = of_int (n div d) * of_int d + of_int (n mod d)"
    by (metis div_mult_mod_eq of_int_add of_int_mult)
  then have fr: "(of_int n / of_int d :: 'a) - of_int (n div d) = of_int (n mod d) / of_int d"
    using assms by (simp add: field_simps)
  have lt: "(of_int (n mod d) / of_int d :: 'a) < 1 / 2 \<longleftrightarrow> 2 * (n mod d) < d"
  proof -
    have "(of_int (n mod d) / of_int d :: 'a) < 1 / 2 \<longleftrightarrow> (of_int (2 * (n mod d)) :: 'a) < of_int d"
      using assms by (simp add: field_simps)
    then show ?thesis by (simp only: of_int_less_iff)
  qed
  have gt: "1 / 2 < (of_int (n mod d) / of_int d :: 'a) \<longleftrightarrow> d < 2 * (n mod d)"
  proof -
    have "1 / 2 < (of_int (n mod d) / of_int d :: 'a) \<longleftrightarrow> (of_int d :: 'a) < of_int (2 * (n mod d))"
      using assms by (simp add: field_simps)
    then show ?thesis by (simp only: of_int_less_iff)
  qed
  show ?thesis
    unfolding round_half_even_def Let_def fl fr lt gt ..
qed

lemma round_half_even_numeral [simp]: "round_half_even (numeral a) = numeral a"
  using round_half_even_of_int [of "numeral a"] by simp

lemma round_half_even_zero [simp]: "round_half_even 0 = 0"
  using round_half_even_of_int [of 0] by simp

lemma round_half_even_fraction [simp]:
  "round_half_even (numeral a / numeral b) =
     (let q = (numeral a :: int) div numeral b; r = (numeral a :: int) mod numeral b
      in if 2 * r < numeral b then q else if numeral b < 2 * r then q + 1
         else if even q then q else q + 1)"
proof -
  have "0 < (numeral b :: int)" by simp
  from round_half_even_div [OF this, of "numeral a"] show ?thesis
    unfolding of_int_numeral .
qed

lemma round_half_even_ge_floor: "\<lfloor>q\<rfloor> \<le> round_half_even q"
  by (simp add: round_half_even_def Let_def)

lemma round_half_even_le_ceiling: "round_half_even q \<le> \<lceil>q\<rceil>"
proof (cases "q = of_int \<lfloor>q\<rfloor>")
  case True
  then have "round_half_even q = \<lfloor>q\<rfloor>"
    by (metis round_half_even_of_int)
  then show ?thesis by (simp add: floor_le_ceiling)
next
  case False
  then have "\<lceil>q\<rceil> = \<lfloor>q\<rfloor> + 1"
    by (metis ceiling_altdef)
  then show ?thesis by (simp add: round_half_even_def Let_def)
qed

lemma double_ulp_large:
  "1 \<le> \<bar>q\<bar> \<Longrightarrow> double_ulp q = 2 ^ nat (bitlen \<lfloor>\<bar>q\<bar>\<rfloor> - 1) / 2 ^ 52"
  by (simp add: double_ulp_def)

lemma double_ulp_pos: "0 < double_ulp q"
  by (simp add: double_ulp_def)

lemma floor_abs_dyadic:
  "\<lfloor>\<bar>of_int i / 2 ^ j :: 'a::floor_ceiling\<bar>\<rfloor> = \<bar>i\<bar> div 2 ^ j"
proof -
  have "\<bar>of_int i / 2 ^ j :: 'a\<bar> = of_int \<bar>i\<bar> / of_int (2 ^ j)"
    by simp
  then show ?thesis
    by (simp only: floor_divide_of_int_eq)
qed

lemma scaled_round_exact:
  assumes "k + e + j = p"
  shows "of_int (round_half_even ((of_int i / 2 ^ j :: 'a::floor_ceiling) / (2 ^ e / 2 ^ p))) *
      (2 ^ e / 2 ^ p) = (of_int i / 2 ^ j :: 'a)"
proof -
  have split: "(2::'a) ^ p = 2 ^ k * 2 ^ e * 2 ^ j"
    unfolding assms [symmetric] by (simp only: power_add)
  have q: "(of_int i / 2 ^ j :: 'a) / (2 ^ e / 2 ^ p) = of_int (i * 2 ^ k)"
    unfolding split by simp
  show ?thesis
    unfolding q round_half_even_of_int unfolding split by simp
qed

lemma scaled_round_ge:
  assumes "(2::'a::floor_ceiling) ^ e \<le> q"
  shows "(2::'a) ^ e \<le> of_int (round_half_even (q / (2 ^ e / 2 ^ p))) * (2 ^ e / 2 ^ p)"
proof -
  define u :: 'a where "u = 2 ^ e / 2 ^ p"
  have upos: "0 < u" by (simp add: u_def)
  have pu: "2 ^ p * u = 2 ^ e" by (simp add: u_def)
  have "2 ^ e / u \<le> q / u"
    using assms upos by (simp add: divide_right_mono)
  moreover have "2 ^ e / u = of_int (2 ^ p)"
    by (simp add: u_def)
  ultimately have "(of_int (2 ^ p) :: 'a) \<le> q / u" by simp
  then have "2 ^ p \<le> \<lfloor>q / u\<rfloor>" by (simp only: le_floor_iff)
  with round_half_even_ge_floor [of "q / u"] have "2 ^ p \<le> round_half_even (q / u)"
    by (rule order_trans [rotated])
  then have "(of_int (2 ^ p) :: 'a) \<le> of_int (round_half_even (q / u))"
    by (simp only: of_int_le_iff)
  then have "of_int (2 ^ p) * u \<le> of_int (round_half_even (q / u)) * u"
    using upos by (simp only: mult_le_cancel_right_pos)
  then show ?thesis
    using pu unfolding u_def [symmetric] by simp
qed

lemma nearest_double_exact:
  assumes lo: "2 ^ j \<le> \<bar>i\<bar>" and hi: "\<bar>i\<bar> < 2 ^ 53"
  shows "nearest_double (of_int i / 2 ^ j :: 'a::floor_ceiling) = of_int i / 2 ^ j"
proof -
  define m where "m = \<bar>i\<bar> div 2 ^ j"
  define e where "e = nat (bitlen m - 1)"
  have mpos: "0 < m"
    using lo by (simp add: m_def pos_imp_zdiv_pos_iff)
  then have "1 \<le> \<lfloor>\<bar>of_int i / 2 ^ j :: 'a\<bar>\<rfloor>"
    unfolding floor_abs_dyadic m_def by simp
  then have large: "1 \<le> \<bar>of_int i / 2 ^ j :: 'a\<bar>"
    by (simp only: le_floor_iff) simp
  from bitlen_bounds [OF mpos] have "2 ^ e \<le> m" by (simp add: e_def)
  then have "2 ^ e * 2 ^ j \<le> m * (2 ^ j :: int)"
    by (simp only: mult_le_cancel_right) simp
  also have "\<dots> \<le> \<bar>i\<bar>"
  proof -
    have "\<bar>i\<bar> = m * 2 ^ j + \<bar>i\<bar> mod 2 ^ j"
      unfolding m_def by (rule div_mult_mod_eq [symmetric])
    moreover have "0 \<le> \<bar>i\<bar> mod 2 ^ j" by simp
    ultimately show ?thesis by linarith
  qed
  also have "\<dots> < 2 ^ 53" by (rule hi)
  finally have "(2::int) ^ (e + j) < 2 ^ 53" by (simp only: power_add)
  then have "e + j < 53" by (rule power_less_imp_less_exp [rotated]) simp
  then have "(52 - (e + j)) + e + j = 52" by simp
  from scaled_round_exact [OF this, of i, where 'a = 'a] show ?thesis
    unfolding nearest_double_def double_ulp_large [OF large] floor_abs_dyadic e_def m_def .
qed

lemma nearest_double_ge_pow2:
  assumes "2 ^ k \<le> (q :: 'a::floor_ceiling)"
  shows "2 ^ k \<le> nearest_double q"
proof -
  define m where "m = \<lfloor>\<bar>q\<bar>\<rfloor>"
  define e where "e = nat (bitlen m - 1)"
  have "(1::'a) \<le> 2 ^ k" by simp
  with assms have large: "1 \<le> \<bar>q\<bar>" by linarith
  then have qpos: "0 < q" using assms \<open>1 \<le> 2 ^ k\<close> by linarith
  have "(of_int (2 ^ k) :: 'a) \<le> q" using assms by simp
  then have "2 ^ k \<le> \<lfloor>q\<rfloor>" by (simp only: le_floor_iff)
  then have km: "2 ^ k \<le> m" unfolding m_def using qpos by simp
  have "(0::int) < 2 ^ k" by simp
  with km have mpos: "0 < m" by (rule less_le_trans [rotated])
  from bitlen_bounds [OF mpos] have em: "2 ^ e \<le> m" and me: "m < 2 ^ nat (bitlen m)"
    by (simp_all add: e_def)
  have "0 < bitlen m"
    using bitlen_nonneg [of m] mpos bitlen_eq_zero_iff [of m] by linarith
  then have "nat (bitlen m) = Suc e"
    by (simp add: e_def)
  with me have "m < 2 ^ Suc e" by (simp only:)
  with km have "(2::int) ^ k < 2 ^ Suc e" by (rule le_less_trans)
  then have "k < Suc e" by (rule power_less_imp_less_exp [rotated]) simp
  then have ke: "k \<le> e" by simp
  have "(of_int m :: 'a) \<le> q" unfolding m_def using qpos by simp
  moreover have "(of_int (2 ^ e) :: 'a) \<le> of_int m" using em by (simp only: of_int_le_iff)
  ultimately have "(of_int (2 ^ e) :: 'a) \<le> q" by (rule order_trans [rotated])
  then have "(2::'a) ^ e \<le> q" by simp
  from scaled_round_ge [OF this, of 52] have "(2::'a) ^ e \<le> nearest_double q"
    unfolding nearest_double_def double_ulp_large [OF large] e_def m_def .
  moreover have "(2::'a) ^ k \<le> 2 ^ e" using ke by simp
  ultimately show ?thesis by (rule order_trans [rotated])
qed

lemma nearest_double_0: "nearest_double 0 = 0"
  by (simp add: nearest_double_def)

lemma nearest_double_int:
  assumes "\<bar>i\<bar> < 2 ^ 53"
  shows "nearest_double (of_int i :: 'a::floor_ceiling) = of_int i"
proof (cases "i = 0")
  case True
  then show ?thesis by (simp add: nearest_double_0)
next
  case False
  then have "2 ^ 0 \<le> \<bar>i\<bar>" by simp
  from nearest_double_exact [OF this assms, where 'a = 'a] show ?thesis by simp
qed

lemma nearest_double_numeral:
  "numeral k < (2::int) ^ 53 \<Longrightarrow> nearest_double (numeral k) = numeral k"
  using nearest_double_int [of "numeral k"] by simp

lemma nearest_double_nonneg:
  assumes "0 \<le> (q :: 'a::floor_ceiling)"
  shows "0 \<le> nearest_double q"
proof -
  have "0 \<le> q / double_ulp q"
    using assms double_ulp_pos [of q] by simp
  then have "0 \<le> \<lfloor>q / double_ulp q\<rfloor>" by simp
  with round_half_even_ge_floor [of "q / double_ulp q"]
  have "0 \<le> round_half_even (q / double_ulp q)" by linarith
  then show ?thesis
    unfolding nearest_double_def using double_ulp_pos [of q] by simp
qed

lemma nearest_double_nonpos:
  assumes "(q :: 'a::floor_ceiling) \<le> 0"
  shows "nearest_double q \<le> 0"
proof -
  have "q / double_ulp q \<le> 0"
    using assms double_ulp_pos [of q] by (simp add: divide_le_0_iff)
  then have "\<lceil>q / double_ulp q\<rceil> \<le> 0" by (simp add: ceiling_le_iff)
  with round_half_even_le_ceiling [of "q / double_ulp q"]
  have "round_half_even (q / double_ulp q) \<le> 0" by linarith
  then have "(of_int (round_half_even (q / double_ulp q)) :: 'a) \<le> 0" by simp
  then show ?thesis
    unfolding nearest_double_def using double_ulp_pos [of q]
    by (simp add: mult_le_0_iff)
qed

lemma double_ulp_le:
  assumes "1 / 2 ^ 1074 \<le> (q :: 'a::floor_ceiling)"
  shows "double_ulp q \<le> q"
proof -
  have qpos: "0 < q"
    using assms by (rule less_le_trans [rotated]) simp
  show ?thesis
  proof (cases "1 \<le> q")
    case True
    define m where "m = \<lfloor>\<bar>q\<bar>\<rfloor>"
    define e where "e = nat (bitlen m - 1)"
    from True have "1 \<le> m" unfolding m_def by (simp add: le_floor_iff)
    then have mpos: "0 < m" by simp
    from bitlen_bounds [OF mpos] have "2 ^ e \<le> m" by (simp add: e_def)
    then have "(of_int (2 ^ e) :: 'a) \<le> of_int m" by (simp only: of_int_le_iff)
    moreover have "(of_int m :: 'a) \<le> q" unfolding m_def using qpos by simp
    ultimately have "(of_int (2 ^ e) :: 'a) \<le> q" by (rule order_trans)
    then have "(2::'a) ^ e \<le> q" by simp
    moreover have "(2::'a) ^ e / 2 ^ 52 \<le> 2 ^ e"
      by (simp add: divide_le_eq)
    ultimately have "(2::'a) ^ e / 2 ^ 52 \<le> q" by (rule order_trans [rotated])
    then show ?thesis
      using True qpos by (simp add: double_ulp_def e_def m_def)
  next
    case False
    define n where "n = nat (bitlen (\<lceil>1 / \<bar>q\<bar>\<rceil> - 1))"
    from False qpos have small: "\<not> 1 \<le> \<bar>q\<bar>" by simp
    have ulp: "double_ulp q = 1 / 2 ^ (min 1022 n + 52)"
      using small by (simp add: double_ulp_def n_def)
    show ?thesis
    proof (cases "n \<le> 1022")
      case True
      from False qpos have "1 < 1 / q" by (simp add: less_divide_eq)
      then have "1 < \<lceil>1 / q\<rceil>" by (simp add: less_ceiling_iff)
      then have cpos: "0 < \<lceil>1 / \<bar>q\<bar>\<rceil> - 1" using qpos by simp
      from bitlen_bounds [OF cpos] have "\<lceil>1 / \<bar>q\<bar>\<rceil> - 1 < 2 ^ nat (bitlen (\<lceil>1 / \<bar>q\<bar>\<rceil> - 1))"
        by simp
      then have "\<lceil>1 / q\<rceil> \<le> 2 ^ n" using qpos by (simp add: n_def)
      then have "1 / q \<le> of_int (2 ^ n)" by (simp only: ceiling_le_iff)
      then have "1 / q \<le> 2 ^ n" by simp
      then have "1 \<le> 2 ^ n * q" using qpos by (simp add: divide_le_eq)
      then have "1 / 2 ^ n \<le> q" by (simp add: divide_le_eq mult.commute)
      moreover have "(1::'a) / 2 ^ (n + 52) \<le> 1 / 2 ^ n"
        by (simp add: power_add divide_le_eq)
      ultimately have "(1::'a) / 2 ^ (n + 52) \<le> q" by (rule order_trans [rotated])
      with True show ?thesis by (simp add: ulp)
    next
      case False
      then have "min 1022 n + 52 = 1074" by simp
      with assms show ?thesis by (simp only: ulp)
    qed
  qed
qed

lemma nearest_double_pos:
  assumes "1 / 2 ^ 1074 \<le> (q :: 'a::floor_ceiling)"
  shows "0 < nearest_double q"
proof -
  have "1 \<le> q / double_ulp q"
    using double_ulp_le [OF assms] double_ulp_pos [of q] by (simp add: le_divide_eq)
  then have "(of_int 1 :: 'a) \<le> q / double_ulp q" by simp
  then have "1 \<le> \<lfloor>q / double_ulp q\<rfloor>" by (simp only: le_floor_iff)
  with round_half_even_ge_floor [of "q / double_ulp q"]
  have "0 < round_half_even (q / double_ulp q)" by linarith
  then show ?thesis
    unfolding nearest_double_def using double_ulp_pos [of q] by simp
qed

lemma pow2_quotient:
  assumes "a + b = c"
  shows "(2::'a::floor_ceiling) ^ a / 2 ^ c = 1 / 2 ^ b"
  unfolding assms [symmetric] power_add by simp

lemma double_ulp_multiple: "\<exists>j. double_ulp (q :: 'a::floor_ceiling) = 2 ^ j / 2 ^ 1074"
proof (cases "1 \<le> \<bar>q\<bar>")
  case True
  define e where "e = nat (bitlen \<lfloor>\<bar>q\<bar>\<rfloor> - 1)"
  have "(1022::nat) + 52 = 1074" by simp
  from pow2_quotient [OF this, where 'a = 'a]
  have "(2::'a) ^ e * (2 ^ 1022 / 2 ^ 1074) = 2 ^ e * (1 / 2 ^ 52)"
    by (simp only:)
  then have "(2::'a) ^ (e + 1022) / 2 ^ 1074 = 2 ^ e / 2 ^ 52"
    by (simp only: power_add times_divide_eq_right mult_1_right)
  with True have "double_ulp q = 2 ^ (e + 1022) / 2 ^ 1074"
    by (simp only: double_ulp_large e_def)
  then show ?thesis ..
next
  case False
  define n where "n = min 1022 (nat (bitlen (\<lceil>1 / \<bar>q\<bar>\<rceil> - 1)))"
  have "n \<le> 1022" by (simp add: n_def)
  then have "(1022 - n) + (n + 52) = 1074" by simp
  from pow2_quotient [OF this, where 'a = 'a]
  have "(2::'a) ^ (1022 - n) / 2 ^ 1074 = 1 / 2 ^ (n + 52)" .
  moreover from False have "double_ulp q = 1 / 2 ^ (n + 52)"
    by (simp only: double_ulp_def n_def if_False)
  ultimately have "double_ulp q = 2 ^ (1022 - n) / 2 ^ 1074" by (simp only:)
  then show ?thesis ..
qed

lemma double_multiple:
  assumes "nearest_double (x :: 'a::floor_ceiling) = x"
  shows "\<exists>m. x = of_int m / 2 ^ 1074"
proof -
  from double_ulp_multiple [of x] obtain j where "double_ulp x = 2 ^ j / 2 ^ 1074" ..
  then have "nearest_double x = of_int (round_half_even (x / double_ulp x) * 2 ^ j) / 2 ^ 1074"
    by (simp add: nearest_double_def)
  with assms show ?thesis by metis
qed

lemma double_gap:
  assumes "nearest_double (x :: 'a::floor_ceiling) = x" and "nearest_double y = y" and "x < y"
  shows "1 / 2 ^ 1074 \<le> y - x"
proof -
  from double_multiple [OF assms(1)] obtain a where a: "x = of_int a / 2 ^ 1074" ..
  from double_multiple [OF assms(2)] obtain b where b: "y = of_int b / 2 ^ 1074" ..
  from assms(3) have "(of_int a :: 'a) < of_int b"
    unfolding a b by (simp add: divide_less_cancel)
  then have "a < b" by (simp only: of_int_less_iff)
  then have "1 \<le> b - a" by simp
  then have "(of_int 1 :: 'a) \<le> of_int (b - a)" by (simp only: of_int_le_iff)
  then have "(1 :: 'a) / 2 ^ 1074 \<le> of_int (b - a) / 2 ^ 1074"
    by (simp add: divide_right_mono)
  then show ?thesis unfolding a b by (simp add: diff_divide_distrib)
qed

lemma double_overflow_pos: "0 < (double_overflow :: 'a::floor_ceiling)"
  by (simp add: double_overflow_def)

lemma double_mul_commute: "double_mul a b = double_mul b a"
  by (auto simp add: double_mul_def mult.commute)

lemma double_of_pos:
  assumes "1 / 2 ^ 1074 \<le> (q :: 'a::floor_ceiling)"
  shows "double_gt_zero (double_of q)"
proof -
  have "0 < q" using assms by (rule less_le_trans [rotated]) simp
  with nearest_double_pos [OF assms] show ?thesis
    by (simp add: double_of_def double_gt_zero_def)
qed

lemma double_of_neg:
  assumes "(q :: 'a::floor_ceiling) < 0"
  shows "\<not> double_gt_zero (double_of q)" and "double_of q \<noteq> Finite 0"
proof -
  from assms have "nearest_double q \<le> 0" by (simp add: nearest_double_nonpos)
  with assms show "\<not> double_gt_zero (double_of q)" and "double_of q \<noteq> Finite 0"
    by (auto simp add: double_of_def double_gt_zero_def)
qed

lemma double_of_nonneg:
  assumes "0 \<le> (q :: 'a::floor_ceiling)"
  shows "double_gt_zero (double_of q) \<or> double_of q = Finite 0"
proof -
  from assms have "0 \<le> nearest_double q" by (rule nearest_double_nonneg)
  with assms double_overflow_pos [where 'a = 'a] show ?thesis
    by (auto simp add: double_of_def double_gt_zero_def)
qed

lemma double_sub_self: "double_sub (Finite x) (Finite x) = Finite 0"
  by (simp add: double_sub_def double_neg_def)

lemma double_sub_Finite:
  "double_sub (Finite x) (Finite y) =
     (if y = 0 then Finite x else if x = y then Finite 0 else double_of (x - y))"
  by (simp add: double_sub_def double_neg_def)

lemma double_sub_gt_zero:
  assumes "nearest_double (x :: 'a::floor_ceiling) = x" and "nearest_double y = y" and "x < y"
  shows "double_gt_zero (double_sub (Finite y) (Finite x))"
  using double_of_pos [OF double_gap [OF assms]] assms(3)
  by (auto simp add: double_sub_Finite double_gt_zero_def)

lemma bitlen_1: "bitlen 1 = 1"
  by (subst compute_bitlen) simp

lemma bitlen_Bit0: "bitlen (numeral (Num.Bit0 k)) = bitlen (numeral k) + 1"
  by (subst compute_bitlen) simp

lemma bitlen_Bit1: "bitlen (numeral (Num.Bit1 k)) = bitlen (numeral k) + 1"
  by (subst compute_bitlen) simp

lemma round_half_even_neg_numeral [simp]: "round_half_even (- numeral a) = - numeral a"
  using round_half_even_of_int [of "- numeral a"] by simp

lemma round_half_even_neg_fraction [simp]:
  "round_half_even (- (numeral a / numeral b)) =
     (let q = (- numeral a :: int) div numeral b; r = (- numeral a :: int) mod numeral b
      in if 2 * r < numeral b then q else if numeral b < 2 * r then q + 1
         else if even q then q else q + 1)"
proof -
  have "0 < (numeral b :: int)" by simp
  from round_half_even_div [OF this, of "- numeral a"] show ?thesis
    by (simp only: of_int_numeral of_int_minus minus_divide_left)
qed

lemmas double_eval =
  nearest_double_def double_ulp_def double_of_def double_overflow_def double_tenth_def
  bitlen_1 bitlen_Bit0 bitlen_Bit1 Let_def

lemmas double_ops_eval =
  double_sub_def double_neg_def double_mul_def double_is_nan_def double_is_inf_def
  double_is_zero_def double_sign_def double_value_def double_gt_zero_def py_max_zero_def

lemma digits_numeral:
  "digits (numeral k) =
     (if numeral k < (10::nat) then [digit_char (numeral k)]
      else digits (numeral k div 10) @ [digit_char (numeral k mod 10)])"
  by (rule digits.simps)

lemma digits_0: "digits 0 = ''0''"
  by (simp add: digits.simps digit_char_def)

lemma digits_1: "digits 1 = ''1''"
  by (simp add: digits.simps digit_char_def)

lemma digits_Suc_0: "digits (Suc 0) = ''1''"
  by (simp add: digits.simps digit_char_def)

lemmas format_1f_eval =
  format_1f_def digits_numeral digits_0 digits_1 digits_Suc_0 digit_char_def Let_def

section \<open>Claims about the renderer\<close>

lemma create_plot_yaxis_range_eq:
  assumes "df \<noteq> []"
  shows "create_plot_yaxis_range df =
     (let y_min = Finite (Min (snd ` set df)); y_max = Finite (Max (snd ` set df));
          y_range = double_sub y_max y_min;
          padding =
            (if double_gt_zero y_range then double_mul y_range (Finite double_tenth)
             else Finite 1)
      in Some (py_max_zero (double_sub y_min padding), double_add y_max padding))"
proof -
  from assms obtain y ys where ys: "map snd df = y # ys"
    by (cases df) auto
  then have s: "snd ` set df = set (y # ys)"
    by (metis set_map)
  show ?thesis
    unfolding create_plot_yaxis_range_def ys s Min.set_eq_fold Max.set_eq_fold by simp
qed

text \<open>
  C6. For a series of doubles that is not empty and not constant, the y axis runs from
  \<open>max(0, min y - 0.1 * (max y - min y))\<close> to \<open>max y + 0.1 * (max y - min y)\<close>, each
  operation being the operation of doubles that the code performs and \<open>0.1\<close> the
  double of that literal. (The difference of two distinct doubles is a positive double,
  so that the padding is the tenth of it and never the 1 of a flat series.)
\<close>

theorem yaxis_range_padded:
  assumes "df \<noteq> []" and "\<forall>v \<in> snd ` set df. nearest_double v = v"
    and "Min (snd ` set df) < Max (snd ` set df)"
  shows "create_plot_yaxis_range df =
     Some (py_max_zero
             (double_sub (Finite (Min (snd ` set df)))
                (double_mul (Finite double_tenth)
                   (double_sub (Finite (Max (snd ` set df))) (Finite (Min (snd ` set df)))))),
           double_add (Finite (Max (snd ` set df)))
             (double_mul (Finite double_tenth)
                (double_sub (Finite (Max (snd ` set df))) (Finite (Min (snd ` set df))))))"
proof -
  have fin: "finite (snd ` set df)" and ne: "snd ` set df \<noteq> {}"
    using assms(1) by simp_all
  have "Min (snd ` set df) \<in> snd ` set df" and "Max (snd ` set df) \<in> snd ` set df"
    using fin ne by (rule Min_in, rule Max_in)
  with assms(2) have "nearest_double (Min (snd ` set df)) = Min (snd ` set df)"
    and "nearest_double (Max (snd ` set df)) = Max (snd ` set df)" by blast+
  from double_sub_gt_zero [OF this assms(3)] show ?thesis
    by (simp add: create_plot_yaxis_range_eq [OF assms(1)] Let_def
        double_mul_commute [of _ "Finite double_tenth"])
qed

theorem yaxis_range_padded_witness:
  "create_plot_yaxis_range [(1, 100), (2, 103), (3, 101)] =
     Some (Finite (7015763794513101 / 70368744177664),
           Finite (7269091273552691 / 70368744177664))"
  using yaxis_range_padded [of "[(1, 100), (2, 103), (3, 101)]"]
  by (simp add: double_eval double_ops_eval)

text \<open>
  C4, as the code has it. For a constant series of value \<open>v\<close> the padding is 1 and the
  lower end is still clamped at zero: the y axis runs from \<open>max(0, v - 1)\<close> to \<open>v + 1\<close>,
  the difference and the sum being those of doubles. It is \<open>[v - 1, v + 1]\<close> exactly
  when \<open>v\<close> is at least 1; below 1 the lower end is 0.
\<close>

theorem yaxis_range_flat:
  assumes "df \<noteq> []" and "\<forall>y \<in> snd ` set df. y = v"
  shows "create_plot_yaxis_range df =
           Some (py_max_zero (double_sub (Finite v) (Finite 1)), double_add (Finite v) (Finite 1)) \<and>
         (create_plot_yaxis_range df =
            Some (double_sub (Finite v) (Finite 1), double_add (Finite v) (Finite 1)) \<longleftrightarrow> 1 \<le> v) \<and>
         (v < 1 \<longrightarrow>
            create_plot_yaxis_range df = Some (Finite 0, double_add (Finite v) (Finite 1)))"
proof -
  from assms have "snd ` set df = {v}" by (cases df) auto
  with assms(1) have rng: "create_plot_yaxis_range df =
      Some (py_max_zero (double_sub (Finite v) (Finite 1)), double_add (Finite v) (Finite 1))"
    by (simp add: create_plot_yaxis_range_eq Let_def double_sub_self double_gt_zero_def)
  have fixed: "py_max_zero (double_sub (Finite v) (Finite 1)) = double_sub (Finite v) (Finite 1)
      \<longleftrightarrow> 1 \<le> v"
  proof (cases "v < 1")
    case True
    then have "v - 1 < 0" by simp
    from double_of_neg [OF this] True show ?thesis
      by (auto simp add: double_sub_Finite py_max_zero_def)
  next
    case False
    then have "0 \<le> v - 1" by simp
    from double_of_nonneg [OF this] False show ?thesis
      by (auto simp add: double_sub_Finite py_max_zero_def double_gt_zero_def)
  qed
  have low: "v < 1 \<Longrightarrow> py_max_zero (double_sub (Finite v) (Finite 1)) = Finite 0"
  proof -
    assume "v < 1"
    then have "v - 1 < 0" by simp
    from double_of_neg(1) [OF this] \<open>v < 1\<close> show ?thesis
      by (simp add: double_sub_Finite py_max_zero_def)
  qed
  from rng fixed low show ?thesis by simp
qed

theorem yaxis_range_flat_witness:
  "create_plot_yaxis_range [(1, 5), (2, 5)] = Some (Finite 4, Finite 6) \<and>
   create_plot_yaxis_range
     [(1, 5404319552844595 / 18014398509481984), (2, 5404319552844595 / 18014398509481984)] =
     Some (Finite 0, Finite (5854679515581645 / 4503599627370496))"
  using yaxis_range_flat [of "[(1, 5), (2, 5)]" 5]
    yaxis_range_flat [of
      "[(1, 5404319552844595 / 18014398509481984), (2, 5404319552844595 / 18014398509481984)]"
      "5404319552844595 / 18014398509481984"]
  by (simp add: double_eval double_ops_eval)

text \<open>
  C4 fails as stated: a series constant at 0 (an idle CPU) gets the range \<open>[0, 1]\<close>,
  whereas \<open>v - 1\<close> is \<open>- 1\<close>.
\<close>

theorem yaxis_range_flat_counterexample:
  "create_plot_yaxis_range [(1, 0), (2, 0), (3, 0)] = Some (Finite 0, Finite 1) \<and>
   double_sub (Finite 0) (Finite 1) = (Finite (- 1) :: real double)"
  by (simp add: create_plot_yaxis_range_def double_eval double_ops_eval)

section \<open>Properties of the formatting loop\<close>

lemma double_overflow_gt: "2 ^ 53 < (double_overflow :: 'a::floor_ceiling)"
  by (simp add: double_overflow_def)

lemma double_overflow_gt_1024: "1024 < (double_overflow :: 'a::floor_ceiling)"
  using double_overflow_gt [where 'a = 'a] by simp

lemma py_float_Inr: "\<bar>q\<bar> < double_overflow \<Longrightarrow> py_float q = Inr (nearest_double q)"
  by (simp add: py_float_def)

lemma py_float_Inl_iff: "py_float q = Inl e \<longleftrightarrow> e = OverflowError \<and> double_overflow \<le> \<bar>q\<bar>"
  by (auto simp add: py_float_def)

lemma double_of_exact:
  assumes "2 ^ j \<le> \<bar>i\<bar>" and "\<bar>i\<bar> < 2 ^ 53"
  shows "double_of (of_int i / 2 ^ j :: 'a::floor_ceiling) = Finite (of_int i / 2 ^ j)"
proof -
  have "(1::int) \<le> 2 ^ j" by simp
  with assms(1) have nz: "i \<noteq> 0" by linarith
  have "\<bar>of_int i / 2 ^ j :: 'a\<bar> = of_int \<bar>i\<bar> / 2 ^ j" by simp
  also have "\<dots> \<le> of_int \<bar>i\<bar>"
  proof -
    have "(1::'a) \<le> 2 ^ j" by simp
    then have "(of_int \<bar>i\<bar> :: 'a) * 1 \<le> of_int \<bar>i\<bar> * 2 ^ j"
      by (intro mult_left_mono) simp_all
    then show ?thesis by (simp add: divide_le_eq)
  qed
  also have "\<dots> < of_int (2 ^ 53)" using assms(2) by (simp only: of_int_less_iff)
  finally have "\<bar>of_int i / 2 ^ j :: 'a\<bar> < 2 ^ 53" by simp
  with double_overflow_gt [where 'a = 'a]
  have "\<not> double_overflow \<le> \<bar>of_int i / 2 ^ j :: 'a\<bar>" by linarith
  moreover have "(of_int i / 2 ^ j :: 'a) \<noteq> 0" using nz by simp
  ultimately show ?thesis
    by (simp add: double_of_def nearest_double_exact [OF assms])
qed

lemma double_of_ge:
  assumes "2 ^ k \<le> (q :: 'a::floor_ceiling)"
  shows "double_of q = PosInf \<or> (\<exists>r. double_of q = Finite r \<and> 2 ^ k \<le> r)"
proof -
  have "(0::'a) < 2 ^ k" by simp
  with assms have qpos: "0 < q" by linarith
  from nearest_double_ge_pow2 [OF assms] have "2 ^ k \<le> nearest_double q" .
  with qpos show ?thesis by (simp add: double_of_def)
qed

lemma double_div_1024_at_least:
  assumes "double_at_least (2 ^ (k + 10)) a"
  shows "double_at_least (2 ^ k) (double_div_1024 a)"
proof (cases a)
  case (Finite x)
  with assms have x: "2 ^ (k + 10) \<le> x" by (simp add: double_at_least_def)
  have "(0::rat) < 2 ^ (k + 10)" by simp
  with x have "x \<noteq> 0" by linarith
  from x have "2 ^ k \<le> x / 1024" by (simp add: power_add le_divide_eq)
  from double_of_ge [OF this] \<open>x \<noteq> 0\<close> Finite show ?thesis
    by (auto simp add: double_div_1024_def double_at_least_def)
next
  case NegZero
  have "(0::rat) < 2 ^ (k + 10)" by simp
  with assms NegZero show ?thesis by (simp add: double_at_least_def)
qed (use assms in \<open>simp_all add: double_at_least_def double_div_1024_def\<close>)

lemma double_at_least_not_lt:
  assumes "double_at_least c a" and "1024 \<le> c"
  shows "\<not> double_lt_1024 a"
  using assms by (cases a) (simp_all add: double_at_least_def double_lt_1024_def)

lemma format_bytes_loop_float:
  "\<exists>s. format_bytes_loop units (PyFloat a) = Inr s"
  by (induction units arbitrary: a) (simp_all add: format_unit_def truediv_1024_def)

lemma format_bytes_loop_unit:
  "format_bytes_loop units b = Inr s \<Longrightarrow>
     \<exists>body unit. s = body @ '' '' @ unit \<and> unit \<in> set units \<union> {''TB''}"
proof (induction units arbitrary: b)
  case Nil
  then show ?case
    by (auto simp add: format_unit_def split: pynum.splits sum.splits)
next
  case (Cons u units)
  show ?case
  proof (cases "lt_1024 b")
    case True
    with Cons.prems show ?thesis
      by (auto simp add: format_unit_def split: pynum.splits sum.splits)
  next
    case False
    with Cons.prems obtain b' where "truediv_1024 b = Inr b'" "format_bytes_loop units b' = Inr s"
      by (auto split: sum.splits)
    from Cons.IH [OF this(2)] show ?thesis by auto
  qed
qed

lemma format_bytes_unit:
  assumes "format_bytes b = Inr s"
  shows "\<exists>body unit. s = body @ '' '' @ unit \<and> unit \<in> {''MB'', ''GB'', ''TB''}"
  using format_bytes_loop_unit [OF assms [unfolded format_bytes_def]] by auto

lemma format_bytes_float_total: "\<exists>s. format_bytes (PyFloat a) = Inr s"
  unfolding format_bytes_def by (rule format_bytes_loop_float)

lemma format_bytes_small_int:
  "i < 1024 \<Longrightarrow> format_bytes (PyInt i) =
     (case py_float (of_int i) of Inl e \<Rightarrow> Inl e | Inr x \<Rightarrow> Inr (format_1f x @ '' MB''))"
  by (simp add: format_bytes_def lt_1024_def format_unit_def split: sum.splits)

lemma format_bytes_large_int:
  "\<not> i < 1024 \<Longrightarrow> format_bytes (PyInt i) =
     (case py_float (of_int i / 1024) of
        Inl e \<Rightarrow> Inl e
      | Inr x \<Rightarrow> format_bytes_loop [''GB'', ''TB''] (PyFloat (Finite x)))"
  by (simp add: format_bytes_def lt_1024_def truediv_1024_def split: sum.splits)

lemma format_bytes_int_fails_iff:
  "format_bytes (PyInt i) = Inl e \<longleftrightarrow>
     e = OverflowError \<and>
     ((of_int i :: rat) \<le> - double_overflow \<or> 1024 * double_overflow \<le> (of_int i :: rat))"
proof (cases "i < 1024")
  case True
  then have lt: "(of_int i :: rat) < 1024" by simp
  have "1024 * 1 < 1024 * (double_overflow :: rat)"
    using double_overflow_gt_1024 [where 'a = rat] by simp
  with lt have no: "\<not> 1024 * double_overflow \<le> (of_int i :: rat)" by linarith
  from lt double_overflow_gt_1024 [where 'a = rat]
  have ab: "double_overflow \<le> \<bar>of_int i :: rat\<bar> \<longleftrightarrow> (of_int i :: rat) \<le> - double_overflow"
    by linarith
  have "format_bytes (PyInt i) = Inl e \<longleftrightarrow> py_float (of_int i) = Inl e"
    unfolding format_bytes_small_int [OF True] by (simp split: sum.splits)
  then show ?thesis
    unfolding py_float_Inl_iff ab using no by blast
next
  case False
  then have ge: "(1024 :: rat) \<le> of_int i" by simp
  with double_overflow_gt_1024 [where 'a = rat]
  have no: "\<not> (of_int i :: rat) \<le> - double_overflow"
    by linarith
  have "\<bar>of_int i / 1024 :: rat\<bar> = of_int i / 1024"
    using ge by simp
  then have ab: "double_overflow \<le> \<bar>of_int i / 1024 :: rat\<bar> \<longleftrightarrow>
      1024 * double_overflow \<le> (of_int i :: rat)"
    by (simp only: le_divide_eq_numeral1 mult.commute)
  have "format_bytes (PyInt i) = Inl e \<longleftrightarrow> py_float (of_int i / 1024) = Inl e"
  proof (cases "py_float (of_int i / 1024)")
    case (Inl e')
    then show ?thesis unfolding format_bytes_large_int [OF False] by simp
  next
    case (Inr x)
    from format_bytes_loop_float [of "[''GB'', ''TB'']" "Finite x"]
    obtain s where "format_bytes_loop [''GB'', ''TB''] (PyFloat (Finite x)) = Inr s" ..
    with Inr show ?thesis unfolding format_bytes_large_int [OF False] by simp
  qed
  then show ?thesis
    unfolding py_float_Inl_iff ab using no by blast
qed

lemma format_bytes_small_float:
  "double_lt_1024 a \<Longrightarrow> format_bytes (PyFloat a) = Inr (format_float a @ '' MB'')"
  by (simp add: format_bytes_def lt_1024_def format_unit_def)

lemma format_bytes_small_int_ok:
  assumes "i < 1024" and "- double_overflow < (of_int i :: rat)"
  shows "format_bytes (PyInt i) = Inr (format_1f (nearest_double (of_int i)) @ '' MB'')"
proof -
  from assms(1) have "(of_int i :: rat) < 1024" by simp
  with assms(2) double_overflow_gt_1024 [where 'a = rat]
  have "\<bar>of_int i :: rat\<bar> < double_overflow"
    by linarith
  then show ?thesis
    unfolding format_bytes_small_int [OF assms(1)] by (simp add: py_float_Inr)
qed

lemma loop_GB_TB:
  "format_bytes_loop [''GB'', ''TB''] (PyFloat a) =
     Inr (if double_lt_1024 a then format_float a @ '' GB''
          else if double_lt_1024 (double_div_1024 a)
            then format_float (double_div_1024 a) @ '' TB''
          else format_float (double_div_1024 (double_div_1024 a)) @ '' TB'')"
  by (simp add: lt_1024_def format_unit_def truediv_1024_def)

lemma loop_GB_TB_fallback:
  assumes "double_at_least (2 ^ 20) a"
  shows "format_bytes_loop [''GB'', ''TB''] (PyFloat a) =
     Inr (format_float (double_div_1024 (double_div_1024 a)) @ '' TB'')"
proof -
  from assms have "\<not> double_lt_1024 a"
    by (rule double_at_least_not_lt) simp
  moreover from assms have "double_at_least (2 ^ 10) (double_div_1024 a)"
    using double_div_1024_at_least [of 10 a] by simp
  then have "\<not> double_lt_1024 (double_div_1024 a)"
    by (rule double_at_least_not_lt) simp
  ultimately show ?thesis unfolding loop_GB_TB by simp
qed

lemma format_bytes_fallback_float:
  assumes "double_at_least (1024 ^ 3) a"
  shows "format_bytes (PyFloat a) =
     Inr (format_float (double_div_1024 (double_div_1024 (double_div_1024 a))) @ '' TB'')"
proof -
  from assms have a30: "double_at_least (2 ^ 30) a" by simp
  then have "\<not> double_lt_1024 a"
    by (rule double_at_least_not_lt) simp
  then have "format_bytes (PyFloat a) =
      format_bytes_loop [''GB'', ''TB''] (PyFloat (double_div_1024 a))"
    by (simp add: format_bytes_def lt_1024_def truediv_1024_def)
  moreover from a30 have "double_at_least (2 ^ 20) (double_div_1024 a)"
    using double_div_1024_at_least [of 20 a] by simp
  ultimately show ?thesis by (simp only: loop_GB_TB_fallback)
qed

lemma format_bytes_fallback_int:
  assumes "1024 ^ 3 \<le> i" and "(of_int i :: rat) < 1024 * double_overflow"
  shows "format_bytes (PyInt i) =
     Inr (format_float
       (double_div_1024 (double_div_1024 (Finite (nearest_double (of_int i / 1024))))) @ '' TB'')"
proof -
  from assms(1) have ge: "\<not> i < 1024" by simp
  from assms(1) have "(0::rat) \<le> of_int i" by simp
  with assms(2) have "\<bar>of_int i / 1024 :: rat\<bar> < double_overflow" by simp
  then have "format_bytes (PyInt i) =
      format_bytes_loop [''GB'', ''TB''] (PyFloat (Finite (nearest_double (of_int i / 1024))))"
    unfolding format_bytes_large_int [OF ge] by (simp add: py_float_Inr)
  moreover from assms(1) have "(of_int (1024 ^ 3) :: rat) \<le> of_int i"
    by (simp only: of_int_le_iff)
  then have "2 ^ 20 \<le> (of_int i / 1024 :: rat)" by simp
  then have "2 ^ 20 \<le> nearest_double (of_int i / 1024 :: rat)" by (rule nearest_double_ge_pow2)
  then have "double_at_least (2 ^ 20) (Finite (nearest_double (of_int i / 1024)))"
    by (simp add: double_at_least_def)
  ultimately show ?thesis by (simp only: loop_GB_TB_fallback)
qed

lemma div_1024_exact:
  assumes "2 ^ (j + 10) \<le> i" and "i < 2 ^ 53"
  shows "double_div_1024 (Finite (of_int i / 2 ^ j)) = Finite (of_int i / 2 ^ (j + 10))"
proof -
  have "(0::int) < 2 ^ (j + 10)" by simp
  with assms(1) have ipos: "0 < i" by linarith
  then have nz: "(of_int i / 2 ^ j :: rat) \<noteq> 0" by simp
  have "(of_int i / 2 ^ j / 1024 :: rat) = of_int i / 2 ^ (j + 10)"
    by (simp add: power_add)
  moreover from assms ipos have "2 ^ (j + 10) \<le> \<bar>i\<bar>" "\<bar>i\<bar> < 2 ^ 53" by simp_all
  from double_of_exact [OF this, where 'a = rat]
  have "double_of (of_int i / 2 ^ (j + 10) :: rat) = Finite (of_int i / 2 ^ (j + 10))" .
  ultimately show ?thesis using nz by (simp add: double_div_1024_def)
qed

lemma format_bytes_exact:
  assumes "\<bar>i\<bar> < 2 ^ 53"
  shows "format_bytes (PyInt i) =
     Inr (if i < 1024 then format_1f (of_int i) @ '' MB''
          else if i < 1024 ^ 2 then format_1f (of_int i / 1024) @ '' GB''
          else if i < 1024 ^ 3 then format_1f (of_int i / 1024 ^ 2) @ '' TB''
          else format_1f (of_int i / 1024 ^ 3) @ '' TB'')"
proof (cases "i < 1024")
  case True
  have "\<bar>of_int i :: rat\<bar> < 2 ^ 53"
    using assms by (metis of_int_abs of_int_less_iff of_int_numeral of_int_power)
  with double_overflow_gt [where 'a = rat] have "\<bar>of_int i :: rat\<bar> < double_overflow"
    by (rule less_trans [rotated])
  with True show ?thesis
    unfolding format_bytes_small_int [OF True]
    by (simp add: py_float_Inr nearest_double_int [OF assms])
next
  case False
  then have i: "1024 \<le> i" "i < 2 ^ 53" using assms by simp_all
  then have "(of_int i :: rat) < of_int (2 ^ 53)" by (simp only: of_int_less_iff)
  then have "\<bar>of_int i / 1024 :: rat\<bar> < 2 ^ 53" using i(1) by simp
  with double_overflow_gt [where 'a = rat]
  have ok: "\<bar>of_int i / 1024 :: rat\<bar> < double_overflow"
    by (rule less_trans [rotated])
  have e1: "nearest_double (of_int i / 1024 :: rat) = of_int i / 1024"
    using nearest_double_exact [of 10 i, where 'a = rat] i by simp
  have b1: "format_bytes (PyInt i) =
      format_bytes_loop [''GB'', ''TB''] (PyFloat (Finite (of_int i / 1024)))"
    unfolding format_bytes_large_int [OF False]
    by (simp add: py_float_Inr [OF ok] e1)
  show ?thesis
  proof (cases "i < 1024 ^ 2")
    case True
    then have "(of_int i :: rat) < of_int (1024 ^ 2)" by (simp only: of_int_less_iff)
    then have "(of_int i / 1024 :: rat) < 1024" by simp
    with False True show ?thesis unfolding b1 loop_GB_TB
      by (simp add: double_lt_1024_def format_float_def)
  next
    case ge2: False
    then have i2: "1024 ^ 2 \<le> i" by simp
    then have "(of_int (1024 ^ 2) :: rat) \<le> of_int i" by (simp only: of_int_le_iff)
    then have n1: "\<not> (of_int i / 1024 :: rat) < 1024" by simp
    have b2: "double_div_1024 (Finite (of_int i / 1024)) = Finite (of_int i / 1024 ^ 2)"
      using div_1024_exact [of 10 i] i2 i(2) by simp
    show ?thesis
    proof (cases "i < 1024 ^ 3")
      case True
      then have "(of_int i :: rat) < of_int (1024 ^ 3)" by (simp only: of_int_less_iff)
      then have "(of_int i / 1024 ^ 2 :: rat) < 1024" by simp
      with False ge2 True n1 show ?thesis unfolding b1 loop_GB_TB b2
        by (simp add: double_lt_1024_def format_float_def)
    next
      case ge3: False
      then have i3: "1024 ^ 3 \<le> i" by simp
      then have "(of_int (1024 ^ 3) :: rat) \<le> of_int i" by (simp only: of_int_le_iff)
      then have n2: "\<not> (of_int i / 1024 ^ 2 :: rat) < 1024" by simp
      have b3: "double_div_1024 (Finite (of_int i / 1024 ^ 2)) = Finite (of_int i / 1024 ^ 3)"
        using div_1024_exact [of 20 i] i3 i(2) by simp
      from False ge2 ge3 n1 n2 show ?thesis unfolding b1 loop_GB_TB b2 b3
        by (simp add: double_lt_1024_def format_float_def)
    qed
  qed
qed

lemma round_half_even_near:
  "\<bar>q - of_int (round_half_even q)\<bar> \<le> 1 / (2 :: 'a::floor_ceiling)"
proof -
  have "of_int \<lfloor>q\<rfloor> \<le> q" "q < of_int \<lfloor>q\<rfloor> + 1" by linarith+
  then show ?thesis
    by (auto simp add: round_half_even_def Let_def)
qed

lemma round_half_even_nonneg: "0 \<le> q \<Longrightarrow> 0 \<le> round_half_even q"
  using round_half_even_ge_floor [of q] by (simp add: order_trans [of 0 "\<lfloor>q\<rfloor>"])

lemma format_1f_shape:
  "\<exists>n d. format_1f x = (if x < 0 then ''-'' else '''') @ digits n @ ''.'' @ [digit_char d] \<and>
     d < 10 \<and> \<bar>10 * \<bar>x\<bar> - of_nat (10 * n + d)\<bar> \<le> 1 / 2"
proof -
  define t where "t = nat (round_half_even (10 * \<bar>x\<bar>))"
  have "0 \<le> round_half_even (10 * \<bar>x\<bar>)" by (rule round_half_even_nonneg) simp
  then have "(of_nat t :: rat) = of_int (round_half_even (10 * \<bar>x\<bar>))"
    by (simp add: t_def)
  with round_half_even_near [of "10 * \<bar>x\<bar>"] have "\<bar>10 * \<bar>x\<bar> - of_nat t\<bar> \<le> 1 / 2"
    by simp
  moreover have "t = 10 * (t div 10) + t mod 10" by simp
  ultimately have "\<bar>10 * \<bar>x\<bar> - of_nat (10 * (t div 10) + t mod 10)\<bar> \<le> 1 / 2"
    by simp
  moreover have "format_1f x =
      (if x < 0 then ''-'' else '''') @ digits (t div 10) @ ''.'' @ [digit_char (t mod 10)]"
    by (simp add: format_1f_def t_def Let_def)
  moreover have "t mod 10 < 10" by simp
  ultimately show ?thesis by blast
qed

lemma format_bytes_nan: "format_bytes (PyFloat NaN) = Inr ''nan TB''"
  by (simp add: format_bytes_def lt_1024_def truediv_1024_def format_unit_def
      double_lt_1024_def double_div_1024_def format_float_def)

lemmas format_float_eval = format_float_def double_lt_1024_def double_at_least_def
  double_div_1024_def

section \<open>Claims about the formatting of sizes\<close>

text \<open>
  C5. The three reference vectors: 500 gives \<open>500.0 MB\<close>, 2048 gives \<open>2.0 GB\<close> and
  2048 * 1024 gives \<open>2.0 TB\<close>. In general, for an integer below \<open>2 ^ 53\<close> in magnitude
  (where every division by 1024 is exact), the value is divided by 1024 once for each
  unit it passes over, MB, then GB, then TB, a value that passes over all three being
  rendered in TB by the fallback; and the text of a number is a sign, an integer part,
  a point and one digit, the nearest tenth of the value.
\<close>

theorem format_bytes_vectors:
  "format_bytes (PyInt 500) = Inr ''500.0 MB'' \<and>
   format_bytes (PyInt 2048) = Inr ''2.0 GB'' \<and>
   format_bytes (PyInt (2048 * 1024)) = Inr ''2.0 TB'' \<and>
   (\<bar>i\<bar> < 2 ^ 53 \<longrightarrow>
      format_bytes (PyInt i) =
        Inr (if i < 1024 then format_1f (of_int i) @ '' MB''
             else if i < 1024 ^ 2 then format_1f (of_int i / 1024) @ '' GB''
             else if i < 1024 ^ 3 then format_1f (of_int i / 1024 ^ 2) @ '' TB''
             else format_1f (of_int i / 1024 ^ 3) @ '' TB'')) \<and>
   (\<exists>n d. format_1f x = (if x < 0 then ''-'' else '''') @ digits n @ ''.'' @ [digit_char d] \<and>
      d < 10 \<and> \<bar>10 * \<bar>x\<bar> - of_nat (10 * n + d)\<bar> \<le> 1 / 2)"
proof -
  have "format_bytes (PyInt 500) = Inr ''500.0 MB''"
    using format_bytes_exact [of 500] by (simp add: format_1f_eval)
  moreover have "format_bytes (PyInt 2048) = Inr ''2.0 GB''"
    using format_bytes_exact [of 2048] by (simp add: format_1f_eval)
  moreover have "format_bytes (PyInt (2048 * 1024)) = Inr ''2.0 TB''"
    using format_bytes_exact [of "2048 * 1024"] by (simp add: format_1f_eval)
  ultimately show ?thesis
    using format_bytes_exact [of i] format_1f_shape [of x] by blast
qed

theorem format_bytes_vectors_witness:
  "format_bytes (PyInt 1280) = Inr ''1.2 GB'' \<and>
   format_bytes (PyInt 123456789) = Inr ''117.7 TB'' \<and>
   format_bytes (PyInt (1024 ^ 3)) = Inr ''1.0 TB''"
  using format_bytes_vectors [of 1280] format_bytes_vectors [of 123456789]
    format_bytes_vectors [of "1024 ^ 3"]
  by (simp add: format_1f_eval)

text \<open>
  C9, as the code has it. Every float is formatted, the zeros of both signs, the
  infinities and NaN too, and every integer between \<open>- double_overflow\<close> and
  \<open>1024 * double_overflow\<close>; an integer outside has no double and raises
  \<^verbatim>\<open>OverflowError\<close>. A result is always a text followed by a blank and one of MB, GB,
  TB. A number below 1024 (zero, the negative ones and minus infinity too) is rendered
  as it is in MB; a number of at least \<open>1024 ^ 3\<close> (plus infinity too) is divided three
  times by 1024 and rendered in TB by the fallback return; NaN, which no comparison
  holds of, is rendered in TB as well.
\<close>

theorem format_bytes_total_in_range:
  "(\<exists>s. format_bytes (PyFloat a) = Inr s) \<and>
   (format_bytes (PyInt i) = Inl e \<longleftrightarrow>
      e = OverflowError \<and>
      ((of_int i :: rat) \<le> - double_overflow \<or> 1024 * double_overflow \<le> (of_int i :: rat))) \<and>
   (format_bytes b = Inr s \<longrightarrow>
      (\<exists>body unit. s = body @ '' '' @ unit \<and> unit \<in> {''MB'', ''GB'', ''TB''})) \<and>
   (double_lt_1024 a \<longrightarrow> format_bytes (PyFloat a) = Inr (format_float a @ '' MB'')) \<and>
   (i < 1024 \<and> - double_overflow < (of_int i :: rat) \<longrightarrow>
      format_bytes (PyInt i) = Inr (format_1f (nearest_double (of_int i)) @ '' MB'')) \<and>
   (double_at_least (1024 ^ 3) a \<longrightarrow>
      format_bytes (PyFloat a) =
        Inr (format_float (double_div_1024 (double_div_1024 (double_div_1024 a))) @ '' TB'')) \<and>
   (1024 ^ 3 \<le> i \<and> (of_int i :: rat) < 1024 * double_overflow \<longrightarrow>
      format_bytes (PyInt i) =
        Inr (format_float
          (double_div_1024 (double_div_1024 (Finite (nearest_double (of_int i / 1024))))) @
          '' TB'')) \<and>
   format_bytes (PyFloat NaN) = Inr ''nan TB''"
  using format_bytes_float_total [of a] format_bytes_int_fails_iff [of i e]
    format_bytes_unit [of b s] format_bytes_small_float [of a]
    format_bytes_small_int_ok [of i] format_bytes_fallback_float [of a]
    format_bytes_fallback_int [of i] format_bytes_nan
  by blast

theorem format_bytes_total_in_range_witness:
  "format_bytes (PyInt (- 5)) = Inr ''-5.0 MB'' \<and>
   format_bytes (PyFloat (Finite (1 / 4))) = Inr ''0.2 MB'' \<and>
   format_bytes (PyFloat NegZero) = Inr ''-0.0 MB'' \<and>
   format_bytes (PyFloat NegInf) = Inr ''-inf MB'' \<and>
   format_bytes (PyFloat PosInf) = Inr ''inf TB'' \<and>
   format_bytes (PyFloat NaN) = Inr ''nan TB'' \<and>
   format_bytes (PyInt (5 * 1024 ^ 3)) = Inr ''5.0 TB'' \<and>
   format_bytes (PyFloat (Finite (3 * 1024 ^ 3))) = Inr ''3.0 TB''"
  using format_bytes_total_in_range [of "Finite (1 / 4)" "- 5"]
    format_bytes_total_in_range [of NegZero]
    format_bytes_total_in_range [of NegInf]
    format_bytes_total_in_range [of PosInf "5 * 1024 ^ 3"]
    format_bytes_total_in_range [of "Finite (3 * 1024 ^ 3)"]
  by (simp add: format_1f_eval format_float_eval double_eval)

text \<open>
  C9 fails as stated: the integer \<open>2 ^ 1100\<close> is a number of at least \<open>1024 ^ 3\<close>, and
  \<^verbatim>\<open>bytes /= 1024\<close> raises \<^verbatim>\<open>OverflowError\<close> on it, the quotient being too large for
  a float.
\<close>

theorem format_bytes_overflow_counterexample:
  "format_bytes (PyInt (2 ^ 1100)) = Inl OverflowError"
  using format_bytes_int_fails_iff [of "2 ^ 1100" OverflowError]
  by (simp add: double_overflow_def)

end
